theory Spec2Isabelle
  imports Complex_Main "HOL-Library.Word" "HOL-Library.Log_Nat"
begin

section \<open>Values of the Go program\<close>

text \<open>
  The program is \<^verbatim>\<open>main.go\<close> of go-lc. Bytes are 8-bit words and the
  delimiter is the byte \<^verbatim>\<open>'\n'\<close>. Go's \<^verbatim>\<open>int\<close> and \<^verbatim>\<open>int64\<close> have 64 bits
  on the platforms the program is built for; they are read as mathematical integers.
  The theorems and examples below are about files of less than \<open>2 ^ 56\<close> bytes, for
  which no sum or product the program forms reaches \<open>2 ^ 63\<close>. A non-nil
  \<^verbatim>\<open>error\<close> is either \<^verbatim>\<open>io.EOF\<close> or some other failure.
\<close>

type_synonym byte = "8 word"

definition delimiter :: byte where
  "delimiter = 10"

datatype error = EOF | Failure string

datatype panic = MakeSliceLen | SliceBounds | MakeChanSize | ErrorPanic error

section \<open>The buffered scanner: \<^verbatim>\<open>getNumOfCharsOnIo\<close>\<close>

text \<open>
  \<^verbatim>\<open>bytes.IndexByte(b, c)\<close>: the index of the first \<open>c\<close> in \<open>b\<close>, or \<open>-1\<close>.
\<close>

fun IndexByte :: "byte list \<Rightarrow> byte \<Rightarrow> int" where
  "IndexByte [] c = - 1"
| "IndexByte (x # xs) c =
     (if x = c then 0
      else (let i = IndexByte xs c in if i = - 1 then - 1 else i + 1))"

text \<open>The slice expression \<^verbatim>\<open>buf[lo:hi]\<close> for \<open>0 \<le> lo \<le> hi \<le> cap(buf)\<close>.\<close>

definition bufSlice :: "byte list \<Rightarrow> int \<Rightarrow> int \<Rightarrow> byte list" where
  "bufSlice buf lo hi = take (nat (hi - lo)) (drop (nat lo) buf)"

text \<open>
  The inner \<^verbatim>\<open>for\<close> loop (lines 210 to 224): search \<^verbatim>\<open>buf[of:n]\<close> for the delimiter,
  stop when there is none, otherwise count it and move \<^verbatim>\<open>of\<close> one past the match.
\<close>

function countInBuf :: "byte list \<Rightarrow> int \<Rightarrow> int \<Rightarrow> int \<Rightarrow> int" where
  "countInBuf buf n ofs c =
     (let index = IndexByte (bufSlice buf ofs n) delimiter in
      if index = - 1 then c
      else countInBuf buf n (ofs + (index + 1)) (c + 1))"
  by pat_completeness auto
termination
proof (relation "measure (\<lambda>(buf, n, ofs, c). nat (n - ofs))", goal_cases)
  case 1
  show ?case by simp
next
  case (2 buf n ofs c index)
  have range: "- 1 \<le> IndexByte xs delimiter \<and> IndexByte xs delimiter < int (length xs)" for xs
    by (induction xs) (auto simp: Let_def)
  have "- 1 \<le> index \<and> index < int (length (bufSlice buf ofs n))"
    using 2(1) range by simp
  moreover have "int (length (bufSlice buf ofs n)) \<le> max 0 (n - ofs)"
    by (simp add: bufSlice_def)
  ultimately show ?case using 2(2) by auto
qed

declare countInBuf.simps [simp del]

text \<open>
  An \<^verbatim>\<open>io.Reader\<close> is a state \<open>'r\<close> with a \<^verbatim>\<open>Read\<close> function: given the state and
  the caller's buffer it answers \<open>(n, err)\<close>, the bytes it wrote (laid over the buffer
  from index 0, so the buffer keeps its length) and its next state. Nothing is assumed
  about \<open>n\<close>: a reader that breaks the \<^verbatim>\<open>io.Reader\<close> contract makes the slice
  expression panic.
\<close>

type_synonym 'r reader = "'r \<Rightarrow> byte list \<Rightarrow> (int \<times> error option) \<times> byte list \<times> 'r"

definition overwrite :: "byte list \<Rightarrow> byte list \<Rightarrow> byte list" where
  "overwrite w buf = take (length buf) w @ drop (length w) buf"

definition readStep ::
  "'r reader \<Rightarrow> byte list \<times> 'r \<Rightarrow> (int \<times> error option) \<times> (byte list \<times> 'r)" where
  "readStep Read s =
     (case Read (snd s) (fst s) of (res, w, r') \<Rightarrow> (res, (overwrite w (fst s), r')))"

text \<open>
  The outer loop (lines 194 to 225), from iteration \<open>j\<close> with count \<open>c\<close>, buffer and
  reader state \<open>s\<close>. The result is a panic, or the returned \<open>(c, err)\<close> with the
  buffer and reader state at the return.
\<close>

function readLoop ::
  "'r reader \<Rightarrow> int \<Rightarrow> int \<Rightarrow> int \<Rightarrow> byte list \<times> 'r
     \<Rightarrow> panic + ((int \<times> error option) \<times> (byte list \<times> 'r))" where
  "readLoop Read repeatCount j c s =
     (if j < repeatCount then
        (case readStep Read s of
           ((n, err), s') \<Rightarrow>
             if n = 0 then Inr ((c, err), s')
             else if err \<noteq> None then Inr ((c, err), s')
             else if n < 0 \<or> int (length (fst s')) < n then Inl SliceBounds
             else readLoop Read repeatCount (j + 1) (countInBuf (fst s') n 0 c) s')
      else Inr ((c, None), s))"
  by pat_completeness auto
termination
  by (relation "measure (\<lambda>(Read, repeatCount, j, c, s). nat (repeatCount - j))") auto

declare readLoop.simps [simp del]

definition getNumOfCharsOnIo ::
  "'r reader \<Rightarrow> 'r \<Rightarrow> int \<Rightarrow> int \<Rightarrow> panic + ((int \<times> error option) \<times> (byte list \<times> 'r))" where
  "getNumOfCharsOnIo Read r buffersize repeatCount =
     (if buffersize < 0 then Inl MakeSliceLen
      else readLoop Read repeatCount 0 0 (replicate (nat buffersize) 0, r))"

text \<open>
  The reads a scan performs, as a sequence: \<open>afterReads Read k s\<close> is the buffer and
  reader state after \<open>k\<close> successive reads from \<open>s\<close>, \<open>nthRead Read k s\<close> what read
  number \<open>k\<close> (from 0) answers, and \<open>delivered Read s k\<close> the bytes it delivers, the
  first \<open>n\<close> bytes of the buffer after it.
\<close>

fun afterReads :: "'r reader \<Rightarrow> nat \<Rightarrow> byte list \<times> 'r \<Rightarrow> byte list \<times> 'r" where
  "afterReads Read 0 s = s"
| "afterReads Read (Suc k) s = afterReads Read k (snd (readStep Read s))"

definition nthRead :: "'r reader \<Rightarrow> nat \<Rightarrow> byte list \<times> 'r \<Rightarrow> int \<times> error option" where
  "nthRead Read k s = fst (readStep Read (afterReads Read k s))"

definition delivered :: "'r reader \<Rightarrow> byte list \<times> 'r \<Rightarrow> nat \<Rightarrow> byte list" where
  "delivered Read s k =
     take (nat (fst (nthRead Read k s))) (fst (afterReads Read (Suc k) s))"

definition deliveredUpTo :: "'r reader \<Rightarrow> byte list \<times> 'r \<Rightarrow> nat \<Rightarrow> byte list" where
  "deliveredUpTo Read s k = concat (map (delivered Read s) [0..<k])"

text \<open>A read the loop scans and continues after: some bytes, no error, within the buffer.\<close>

definition scanned :: "nat \<Rightarrow> int \<times> error option \<Rightarrow> bool" where
  "scanned cap res \<longleftrightarrow> 0 < fst res \<and> fst res \<le> int cap \<and> snd res = None"

section \<open>The planner's arithmetic: \<^verbatim>\<open>int(math.Trunc(float64(a) / float64(b)))\<close>\<close>

text \<open>
  The planner divides in \<^verbatim>\<open>float64\<close>. A \<^verbatim>\<open>float64\<close> has a 53-bit significand and
  Go rounds to nearest, ties to even, both when it converts an \<^verbatim>\<open>int\<close> and when it
  divides. The values that occur here are integers up to \<open>2 ^ 63\<close> in size and their
  quotients, so neither subnormal numbers nor overflow to infinity can arise.

  \<open>roundHalfEven num den\<close> is the integer nearest to \<open>num / den\<close> for \<open>0 \<le> num\<close>
  and \<open>0 < den\<close>, the even one of two equally near.
\<close>

definition roundHalfEven :: "int \<Rightarrow> int \<Rightarrow> int" where
  "roundHalfEven num den =
     (let q = num div den; r = num mod den
      in if den < 2 * r \<or> (2 * r = den \<and> odd q) then q + 1 else q)"

text \<open>The value of \<^verbatim>\<open>float64(n)\<close> for an \<^verbatim>\<open>int\<close> \<open>n\<close>: it is an integer again.\<close>

definition float64 :: "int \<Rightarrow> int" where
  "float64 n =
     (if \<bar>n\<bar> < 2 ^ 53 then n
      else (let sh = nat (bitlen \<bar>n\<bar> - 53)
            in sgn n * (roundHalfEven \<bar>n\<bar> (2 ^ sh) * 2 ^ sh)))"

text \<open>
  The quotient \<open>x / y\<close> of two positive values is rounded to \<open>m * 2 ^ e\<close>, where
  \<open>e = quotExp x y\<close> is the exponent with \<open>2 ^ 52 \<le> (x / y) / 2 ^ e < 2 ^ 53\<close> and
  \<open>m\<close> the nearest integer to \<open>(x / y) / 2 ^ e\<close>. \<open>fdivTrunc x y\<close> is
  \<^verbatim>\<open>math.Trunc\<close> of that rounded quotient, for \<open>0 \<le> x\<close> and \<open>0 < y\<close>.
\<close>

definition quotExp :: "int \<Rightarrow> int \<Rightarrow> int" where
  "quotExp x y =
     (let d = bitlen x - bitlen y
      in (if y * 2 ^ nat d \<le> x * 2 ^ nat (- d) then d else d - 1) - 52)"

definition fdivTrunc :: "int \<Rightarrow> int \<Rightarrow> int" where
  "fdivTrunc x y =
     (if x = 0 then 0
      else (let e = quotExp x y;
                m = roundHalfEven (x * 2 ^ nat (- e)) (y * 2 ^ nat e)
            in if 0 \<le> e then m * 2 ^ nat e else m div 2 ^ nat (- e)))"

text \<open>
  \<^verbatim>\<open>int(math.Trunc(float64(a) / float64(b)))\<close>. Rounding and truncation are symmetric
  in the sign. Go leaves the conversion to \<^verbatim>\<open>int\<close> implementation-defined when the
  value is infinite, not a number (\<open>b = 0\<close>) or outside 64 bits: the result is
  \<open>None\<close> then.
\<close>

definition truncQuot :: "int \<Rightarrow> int \<Rightarrow> int option" where
  "truncQuot a b =
     (if b = 0 then None
      else (let q = sgn a * sgn b * fdivTrunc \<bar>float64 a\<bar> \<bar>float64 b\<bar>
            in if - (2 ^ 63) \<le> q \<and> q < 2 ^ 63 then Some q else None))"

section \<open>The file system as the program sees it\<close>

text \<open>
  An opened file has its bytes, the errors \<^verbatim>\<open>Stat\<close> and \<^verbatim>\<open>Seek\<close> would report on
  this handle, the read cursor, and the number of \<^verbatim>\<open>Read\<close> calls it has served.
  The operating system is the result of each \<^verbatim>\<open>os.OpenFile(name, 0, 0)\<close> the program
  makes: call 0 is the one of \<^verbatim>\<open>getFileSize\<close>, call \<open>i + 1\<close> the one of the worker
  of segment \<open>i\<close>.
\<close>

record osFile =
  contents :: "byte list"
  statErr :: "error option"
  seekErr :: "error option"
  pos :: nat
  calls :: nat

type_synonym os = "nat \<Rightarrow> string \<Rightarrow> error + osFile"

text \<open>
  \<^verbatim>\<open>(*os.File).Read\<close> on a regular file. One call reads at most \<open>maxRW\<close> bytes,
  \<open>2 ^ 30\<close>: Go's \<^verbatim>\<open>internal/poll\<close> cuts a longer buffer down to that before the
  system call. Within this limit the call fills the buffer as far as the file reaches;
  it answers \<open>(0, io.EOF)\<close> at the end of the file, and \<open>(0, nil)\<close> for an empty
  buffer.
\<close>

definition maxRW :: int where
  "maxRW = 2 ^ 30"

definition fileRead :: "osFile reader" where
  "fileRead f buf =
     (let d = take (nat (min (int (length buf)) maxRW)) (drop (pos f) (contents f));
          f' = f\<lparr>pos := pos f + length d, calls := calls f + 1\<rparr>
      in if buf = [] then ((0, None), [], f')
         else if d = [] then ((0, Some EOF), [], f')
         else ((int (length d), None), d, f'))"

definition fileSeek :: "osFile \<Rightarrow> int \<Rightarrow> error + osFile" where
  "fileSeek f offset =
     (case seekErr f of
        Some err \<Rightarrow> Inl err
      | None \<Rightarrow>
          if offset < 0 then Inl (Failure ''invalid argument'')
          else Inr (f\<lparr>pos := nat offset\<rparr>))"

definition getFileSize :: "os \<Rightarrow> string \<Rightarrow> error + int" where
  "getFileSize os filename =
     (case os 0 filename of
        Inl err \<Rightarrow> Inl err
      | Inr fh \<Rightarrow>
          (case statErr fh of
             Some err \<Rightarrow> Inl err
           | None \<Rightarrow> Inr (int (length (contents fh)))))"

section \<open>The worker: \<^verbatim>\<open>countWorker\<close>\<close>

text \<open>
  What a worker does to the world outside it, in order: it closes its handle, sends a
  count on the \<^verbatim>\<open>counter\<close> channel, calls \<^verbatim>\<open>wg.Done()\<close> and takes its token back
  out of \<^verbatim>\<open>jc\<close>. The deferred function of line 152 does the last three on every way
  out, after the deferred \<^verbatim>\<open>f.Close()\<close> of line 168 (deferred calls run last in,
  first out), also when the worker panics.
\<close>

datatype event = Close | Send int | WgDone | Release

record report =
  readCount :: int
  startOffset :: int
  events :: "event list"
  handle :: "osFile option"
  panicked :: "panic option"

definition deferred :: "int \<Rightarrow> event list" where
  "deferred c = [Send c, WgDone, Release]"

definition countWorker ::
  "(string \<Rightarrow> error + osFile) \<Rightarrow> string \<Rightarrow> int \<Rightarrow> int \<Rightarrow> int \<Rightarrow> report" where
  "countWorker openFile filename eachReadCount byteOffset buffersize =
     (case openFile filename of
        Inl err \<Rightarrow>
          \<lparr>readCount = eachReadCount, startOffset = byteOffset,
           events = deferred 0, handle = None, panicked = None\<rparr>
      | Inr f \<Rightarrow>
          (case fileSeek f byteOffset of
             Inl err \<Rightarrow>
               \<lparr>readCount = eachReadCount, startOffset = byteOffset,
                events = Close # deferred 0, handle = Some f, panicked = None\<rparr>
           | Inr f' \<Rightarrow>
               (case getNumOfCharsOnIo fileRead f' buffersize eachReadCount of
                  Inl p \<Rightarrow>
                    \<lparr>readCount = eachReadCount, startOffset = byteOffset,
                     events = Close # deferred 0, handle = Some f', panicked = Some p\<rparr>
                | Inr ((c, err), s) \<Rightarrow>
                    \<lparr>readCount = eachReadCount, startOffset = byteOffset,
                     events = Close # deferred c, handle = Some (snd s),
                     panicked = map_option ErrorPanic err\<rparr>)))"

fun sent :: "event list \<Rightarrow> int list" where
  "sent [] = []"
| "sent (Send c # es) = c # sent es"
| "sent (e # es) = sent es"

section \<open>The planner and the aggregator: \<^verbatim>\<open>getNumOfLines\<close>\<close>

text \<open>Lines 85 to 90: the number of buffer-sized reads that cover the file.\<close>

definition readCountTotal :: "int \<Rightarrow> int \<Rightarrow> int option" where
  "readCountTotal fsize buffersize =
     (case truncQuot fsize buffersize of
        None \<Rightarrow> None
      | Some q \<Rightarrow> Some (if 0 < fsize - q * buffersize then q + 1 else q))"

text \<open>
  The loop of lines 125 to 140, from iteration \<open>i\<close> with the offset reached so far:
  the arguments \<open>(eachReadCount, byteOffset)\<close> it gives to the worker of each
  segment. They do not depend on what the workers do.
\<close>

function segmentLoop :: "int \<Rightarrow> int \<Rightarrow> int \<Rightarrow> int \<Rightarrow> int \<Rightarrow> (int \<times> int) list option" where
  "segmentLoop readTotal splitNum buffersize i byteOffset =
     (if i < splitNum then
        (case truncQuot (readTotal + i) splitNum of
           None \<Rightarrow> None
         | Some eachReadCount \<Rightarrow>
             (case segmentLoop readTotal splitNum buffersize (i + 1)
                     (byteOffset + eachReadCount * buffersize) of
                None \<Rightarrow> None
              | Some segs \<Rightarrow> Some ((eachReadCount, byteOffset) # segs)))
      else Some [])"
  by pat_completeness auto
termination
  by (relation "measure (\<lambda>(readTotal, splitNum, buffersize, i, byteOffset). nat (splitNum - i))")
    auto

declare segmentLoop.simps [simp del]

text \<open>
  The list the loop builds when iteration \<open>i\<close> gives its worker \<open>f i\<close> reads: \<open>n\<close>
  segments from iteration \<open>i\<close> and offset \<open>off\<close>.
\<close>

fun plan :: "(int \<Rightarrow> int) \<Rightarrow> int \<Rightarrow> int \<Rightarrow> int \<Rightarrow> nat \<Rightarrow> (int \<times> int) list" where
  "plan f b i off 0 = []"
| "plan f b i off (Suc n) = (f i, off) # plan f b (i + 1) (off + f i * b) n"

text \<open>
  The workers run one after the other in the order the loop starts them. They share
  nothing but the channels, and the receiver only adds up what arrives, so the order
  in which they really finish does not change the sum. A panic in a worker ends the
  process: no later worker is run.
\<close>

fun runWorkers :: "os \<Rightarrow> string \<Rightarrow> int \<Rightarrow> nat \<Rightarrow> (int \<times> int) list \<Rightarrow> report list" where
  "runWorkers os filename buffersize i [] = []"
| "runWorkers os filename buffersize i ((eachReadCount, byteOffset) # segs) =
     (let w = countWorker (os (Suc i)) filename eachReadCount byteOffset buffersize
      in if panicked w \<noteq> None then [w]
         else w # runWorkers os filename buffersize (Suc i) segs)"

text \<open>The receiving goroutine of lines 110 to 119.\<close>

definition receiver :: "int list \<Rightarrow> int" where
  "receiver cs = fold (\<lambda>c cAll. cAll + c) cs 0"

text \<open>
  A run of \<^verbatim>\<open>getNumOfLines\<close> returns \<open>(total, err)\<close>, or the process dies of a
  panic, or blocks for ever (a channel of capacity 0 that nobody receives from), or
  depends on an implementation-defined conversion.
\<close>

datatype outcome = Returned int "error option" | Crashed panic | Deadlocked | ImplDefined

record run =
  outcome :: outcome
  workers :: "report list"

definition firstPanic :: "report list \<Rightarrow> panic option" where
  "firstPanic ws = (case filter (\<lambda>w. panicked w \<noteq> None) ws of [] \<Rightarrow> None | w # _ \<Rightarrow> panicked w)"

definition getNumOfLines :: "os \<Rightarrow> string \<Rightarrow> int \<Rightarrow> int \<Rightarrow> int \<Rightarrow> run" where
  "getNumOfLines os filename splitNum maxThreads buffersize =
     (case getFileSize os filename of
        Inl err \<Rightarrow> \<lparr>outcome = Returned 0 (Some err), workers = []\<rparr>
      | Inr fsize \<Rightarrow>
          (case readCountTotal fsize buffersize of
             None \<Rightarrow> \<lparr>outcome = ImplDefined, workers = []\<rparr>
           | Some readTotal \<Rightarrow>
               if maxThreads < 0 then \<lparr>outcome = Crashed MakeChanSize, workers = []\<rparr>
               else
                 (case segmentLoop readTotal splitNum buffersize 0 0 of
                    None \<Rightarrow> \<lparr>outcome = ImplDefined, workers = []\<rparr>
                  | Some segs \<Rightarrow>
                      if maxThreads = 0 \<and> segs \<noteq> [] then
                        \<lparr>outcome = Deadlocked, workers = []\<rparr>
                      else
                        (let ws = runWorkers os filename buffersize 0 segs
                         in \<lparr>outcome =
                               (case firstPanic ws of
                                  Some p \<Rightarrow> Crashed p
                                | None \<Rightarrow> Returned (receiver (concat (map (sent \<circ> events) ws))) None),
                             workers = ws\<rparr>))))"

text \<open>
  The baseline of the specification: one pass over the bytes of the file, counting the
  delimiter bytes.
\<close>

fun sequentialScan :: "byte list \<Rightarrow> int" where
  "sequentialScan [] = 0"
| "sequentialScan (x # xs) = (if x = delimiter then 1 else 0) + sequentialScan xs"

text \<open>
  A file system in which \<open>path\<close> is an unchanging regular file with the bytes \<open>cs\<close>:
  every open succeeds, \<^verbatim>\<open>Stat\<close> and \<^verbatim>\<open>Seek\<close> succeed.
\<close>

definition regularFile :: "byte list \<Rightarrow> osFile" where
  "regularFile cs = \<lparr>contents = cs, statErr = None, seekErr = None, pos = 0, calls = 0\<rparr>"

definition holding :: "string \<Rightarrow> byte list \<Rightarrow> os" where
  "holding path cs = (\<lambda>k name. if name = path then Inr (regularFile cs) else Inl (Failure ''no such file''))"

text \<open>
  The same file system, except that the open of the worker of segment \<open>k\<close> fails, or
  that its \<^verbatim>\<open>Seek\<close> does.
\<close>

definition openFailsAt :: "nat \<Rightarrow> error \<Rightarrow> os \<Rightarrow> os" where
  "openFailsAt k err os = (\<lambda>j name. if j = Suc k then Inl err else os j name)"

definition seekFailsAt :: "nat \<Rightarrow> error \<Rightarrow> os \<Rightarrow> os" where
  "seekFailsAt k err os =
     (\<lambda>j name. if j = Suc k then map_sum id (\<lambda>f. f\<lparr>seekErr := Some err\<rparr>) (os j name)
                else os j name)"

text \<open>
  A reader that plays back a list of answers, one per \<^verbatim>\<open>Read\<close>: each answer is
  \<open>(n, err)\<close> with the bytes written. The \<^verbatim>\<open>io.Reader\<close> contract allows an answer
  with \<open>n > 0\<close> and a non-nil error at the end of the input.
\<close>

definition scriptRead :: "((int \<times> error option) \<times> byte list) list reader" where
  "scriptRead script buf =
     (case script of
        [] \<Rightarrow> ((0, Some EOF), [], [])
      | (res, w) # rest \<Rightarrow> (res, w, rest))"

text \<open>What a scan returns, without the buffer and reader state it ends in.\<close>

definition returned :: "panic + ((int \<times> error option) \<times> 's) \<Rightarrow> panic + (int \<times> error option)" where
  "returned x = map_sum id fst x"

section \<open>Properties of the scanner\<close>

lemma IndexByte_range: "- 1 \<le> IndexByte xs c \<and> IndexByte xs c < int (length xs)"
  by (induction xs) (auto simp: Let_def)

lemma IndexByte_absent: "IndexByte xs c = - 1 \<longleftrightarrow> c \<notin> set xs"
proof (induction xs)
  case Nil
  show ?case by simp
next
  case (Cons x xs)
  have "0 \<le> IndexByte xs c \<or> IndexByte xs c = - 1"
    using IndexByte_range [of xs c] by linarith
  with Cons show ?case by (auto simp: Let_def)
qed

lemma IndexByte_found:
  "IndexByte xs c \<noteq> - 1 \<Longrightarrow>
     count_list xs c = Suc (count_list (drop (nat (IndexByte xs c + 1)) xs) c)"
proof (induction xs)
  case Nil
  then show ?case by simp
next
  case (Cons x xs)
  show ?case
  proof (cases "x = c")
    case True
    then show ?thesis by simp
  next
    case False
    with Cons.prems have ne: "IndexByte xs c \<noteq> - 1"
      by (auto simp: Let_def split: if_splits)
    have nn: "0 \<le> IndexByte xs c"
      using ne IndexByte_range [of xs c] by linarith
    have "nat (IndexByte xs c + 1 + 1) = Suc (nat (IndexByte xs c + 1))"
      using nn by linarith
    with False ne Cons.IH [OF ne] show ?thesis
      by (simp add: Let_def)
  qed
qed

lemma bufSlice_advance:
  assumes "0 \<le> ofs" "0 \<le> i"
  shows "bufSlice buf (ofs + (i + 1)) n = drop (nat (i + 1)) (bufSlice buf ofs n)"
proof -
  have a: "nat (ofs + (i + 1)) = nat (i + 1) + nat ofs"
    using assms by linarith
  have b: "nat (n - (ofs + (i + 1))) = nat (n - ofs) - nat (i + 1)"
    using assms by linarith
  show ?thesis
    unfolding bufSlice_def a b by (simp add: drop_take add.commute)
qed

lemma countInBuf_count:
  "0 \<le> ofs \<Longrightarrow>
     countInBuf buf n ofs c = c + int (count_list (bufSlice buf ofs n) delimiter)"
proof (induction buf n ofs c rule: countInBuf.induct)
  case (1 buf n ofs c)
  let ?i = "IndexByte (bufSlice buf ofs n) delimiter"
  show ?case
  proof (cases "?i = - 1")
    case True
    then have "delimiter \<notin> set (bufSlice buf ofs n)"
      by (simp add: IndexByte_absent)
    then have "count_list (bufSlice buf ofs n) delimiter = 0"
      by (simp add: count_list_0_iff)
    with True show ?thesis
      by (subst countInBuf.simps) simp
  next
    case False
    have nn: "0 \<le> ?i"
      using False IndexByte_range [of "bufSlice buf ofs n" delimiter] by linarith
    have step: "countInBuf buf n ofs c = countInBuf buf n (ofs + (?i + 1)) (c + 1)"
      using False by (subst countInBuf.simps) (simp add: Let_def)
    have "countInBuf buf n (ofs + (?i + 1)) (c + 1) =
            c + 1 + int (count_list (bufSlice buf (ofs + (?i + 1)) n) delimiter)"
      using "1.IH" [OF refl False] "1.prems" nn by simp
    also have "bufSlice buf (ofs + (?i + 1)) n = drop (nat (?i + 1)) (bufSlice buf ofs n)"
      using "1.prems" nn by (rule bufSlice_advance)
    finally show ?thesis
      using step IndexByte_found [OF False] by simp
  qed
qed

lemma bufSlice_whole: "0 \<le> n \<Longrightarrow> bufSlice buf 0 n = take (nat n) buf"
  by (simp add: bufSlice_def)

lemma length_overwrite [simp]: "length (overwrite w buf) = length buf"
  by (simp add: overwrite_def)

lemma length_readStep [simp]: "length (fst (snd (readStep Read s))) = length (fst s)"
  by (simp add: readStep_def split: prod.splits)

lemma length_afterReads [simp]: "length (fst (afterReads Read k s)) = length (fst s)"
  by (induction k arbitrary: s) simp_all

lemma afterReads_Suc_right:
  "afterReads Read (Suc k) s = snd (readStep Read (afterReads Read k s))"
  by (induction k arbitrary: s) simp_all

lemma nthRead_Suc: "nthRead Read (Suc k) s = nthRead Read k (snd (readStep Read s))"
  by (simp add: nthRead_def)

lemma delivered_Suc: "delivered Read s (Suc k) = delivered Read (snd (readStep Read s)) k"
  by (simp add: delivered_def nthRead_Suc)

lemma deliveredUpTo_Suc:
  "deliveredUpTo Read s (Suc k) =
     delivered Read s 0 @ deliveredUpTo Read (snd (readStep Read s)) k"
proof -
  have "[0..<Suc k] = 0 # map Suc [0..<k]"
    by (simp add: upt_conv_Cons map_Suc_upt del: upt_Suc)
  then show ?thesis
    by (simp add: deliveredUpTo_def delivered_Suc comp_def del: upt_Suc)
qed

text \<open>
  The loop runs through \<open>k\<close> scanned reads: it arrives at iteration \<open>j + k\<close> with the
  delimiters of the delivered bytes added to the count.
\<close>

lemma readLoop_scanned:
  assumes "\<forall>i<k. scanned (length (fst s)) (nthRead Read i s)"
    and "j + int k \<le> repeatCount"
  shows "readLoop Read repeatCount j c s =
           readLoop Read repeatCount (j + int k)
             (c + int (count_list (deliveredUpTo Read s k) delimiter)) (afterReads Read k s)"
  using assms
proof (induction k arbitrary: j c s)
  case 0
  show ?case by (simp add: deliveredUpTo_def)
next
  case (Suc k)
  obtain n err s' where rs: "readStep Read s = ((n, err), s')"
    by (metis prod.exhaust)
  have first: "scanned (length (fst s)) (n, err)"
    using Suc.prems(1) rs by (auto simp: nthRead_def dest: spec [of _ 0])
  have len: "length (fst s') = length (fst s)"
    using length_readStep [of Read s] rs by simp
  have rest: "\<forall>i<k. scanned (length (fst s')) (nthRead Read i s')"
  proof (intro allI impI)
    fix i assume "i < k"
    then have "scanned (length (fst s)) (nthRead Read (Suc i) s)"
      using Suc.prems(1) by auto
    then show "scanned (length (fst s')) (nthRead Read i s')"
      using rs len by (simp add: nthRead_Suc)
  qed
  have d0: "delivered Read s 0 = take (nat n) (fst s')"
    using rs by (simp add: delivered_def nthRead_def)
  have cnt: "countInBuf (fst s') n 0 c = c + int (count_list (delivered Read s 0) delimiter)"
    using first by (simp add: countInBuf_count bufSlice_whole d0 scanned_def)
  have "readLoop Read repeatCount j c s =
          readLoop Read repeatCount (j + 1) (countInBuf (fst s') n 0 c) s'"
    using first Suc.prems(2) rs len
    by (subst readLoop.simps) (auto simp: scanned_def)
  also have "\<dots> = readLoop Read repeatCount (j + 1 + int k)
        (countInBuf (fst s') n 0 c + int (count_list (deliveredUpTo Read s' k) delimiter))
        (afterReads Read k s')"
    using Suc.IH [OF rest, of "j + 1"] Suc.prems(2) by simp
  finally show ?case
    using rs cnt by (simp add: deliveredUpTo_Suc ac_simps)
qed

text \<open>What the loop does at the read that stops it.\<close>

lemma readLoop_stop:
  assumes "j < repeatCount"
    and "fst (nthRead Read 0 s) = 0 \<or> snd (nthRead Read 0 s) \<noteq> None"
  shows "readLoop Read repeatCount j c s =
           Inr ((c, snd (nthRead Read 0 s)), afterReads Read (Suc 0) s)"
proof -
  obtain n err s' where rs: "readStep Read s = ((n, err), s')"
    by (metis prod.exhaust)
  with assms show ?thesis
    by (subst readLoop.simps) (auto simp: nthRead_def)
qed

lemma readLoop_end:
  "repeatCount \<le> j \<Longrightarrow> readLoop Read repeatCount j c s = Inr ((c, None), s)"
  by (subst readLoop.simps) simp

lemma delivered_empty:
  "fst (nthRead Read i s) = 0 \<Longrightarrow> delivered Read s i = []"
  by (simp add: delivered_def)

lemma deliveredUpTo_length:
  assumes "\<forall>i<k. fst (nthRead Read i s) = int (length (fst s))"
  shows "length (deliveredUpTo Read s k) = k * length (fst s)"
  using assms
proof (induction k)
  case 0
  show ?case by (simp add: deliveredUpTo_def)
next
  case (Suc k)
  have "length (delivered Read s k) = length (fst s)"
    using Suc.prems by (simp add: delivered_def del: afterReads.simps)
  moreover have "deliveredUpTo Read s (Suc k) = deliveredUpTo Read s k @ delivered Read s k"
    by (simp add: deliveredUpTo_def)
  ultimately show ?case
    using Suc by simp
qed

lemma scan_stops_at:
  assumes "0 \<le> buffersize" and "int k < repeatCount"
    and "\<forall>i<k. scanned (nat buffersize) (nthRead Read i (replicate (nat buffersize) 0, r))"
    and "fst (nthRead Read k (replicate (nat buffersize) 0, r)) = 0 \<or>
         snd (nthRead Read k (replicate (nat buffersize) 0, r)) \<noteq> None"
  shows "getNumOfCharsOnIo Read r buffersize repeatCount =
           Inr ((int (count_list (deliveredUpTo Read (replicate (nat buffersize) 0, r) k) delimiter),
                 snd (nthRead Read k (replicate (nat buffersize) 0, r))),
                afterReads Read (Suc k) (replicate (nat buffersize) 0, r))"
proof -
  let ?s = "(replicate (nat buffersize) 0, r)"
  have "\<forall>i<k. scanned (length (fst ?s)) (nthRead Read i ?s)"
    using assms(3) by simp
  then have "readLoop Read repeatCount 0 0 ?s =
      readLoop Read repeatCount (0 + int k)
        (0 + int (count_list (deliveredUpTo Read ?s k) delimiter)) (afterReads Read k ?s)"
    by (rule readLoop_scanned) (use assms(2) in simp)
  moreover have "nthRead Read 0 (afterReads Read k ?s) = nthRead Read k ?s"
    by (simp add: nthRead_def)
  moreover have "afterReads Read (Suc 0) (afterReads Read k ?s) = afterReads Read (Suc k) ?s"
    by (simp add: afterReads_Suc_right del: afterReads.simps(2))
  ultimately show ?thesis
    using assms(1,2,4) readLoop_stop [of "int k" repeatCount Read "afterReads Read k ?s"]
    by (simp add: getNumOfCharsOnIo_def)
qed

section \<open>The planner's division is exact below \<open>2 ^ 53\<close>\<close>

text \<open>
  The rounding picks a nearest integer, and the exponent of a quotient puts its scaled
  value between \<open>2 ^ 52\<close> and \<open>2 ^ 53\<close> (\<open>quotExp_lower\<close>, \<open>quotExp_upper\<close>): the
  rounded quotient has a significand of 53 bits.
\<close>

lemma roundHalfEven_nearest:
  assumes "0 < den"
  shows "\<bar>2 * (roundHalfEven num den * den - num)\<bar> \<le> den"
proof -
  define q where "q = num div den"
  define r where "r = num mod den"
  have num: "num = q * den + r" and r: "0 \<le> r" "r < den"
    using assms by (simp_all add: q_def r_def)
  have "roundHalfEven num den = (if den < 2 * r \<or> (2 * r = den \<and> odd q) then q + 1 else q)"
    by (simp add: roundHalfEven_def Let_def q_def r_def)
  then show ?thesis
    using r by (auto simp: num algebra_simps)
qed

text \<open>
  Rounding the scaled quotient and truncating it gives the integer quotient whenever the
  divisor is below twice the scale: the remainder is then too far from the next integer
  for the rounding to reach it.
\<close>

lemma roundHalfEven_scaled:
  assumes "0 < y" "0 < T" "y < 2 * T" "0 \<le> x"
  shows "roundHalfEven (x * T) y div T = x div y"
proof -
  define k where "k = x div y"
  define s where "s = x mod y"
  define u where "u = (s * T) div y"
  define r where "r = (s * T) mod y"
  have x: "x = k * y + s" and s: "0 \<le> s" "s < y"
    using assms(1) by (simp_all add: k_def s_def)
  have N: "x * T = s * T + (k * T) * y"
    by (simp add: x algebra_simps)
  have q: "(x * T) div y = k * T + u"
    unfolding N u_def using assms(1) by simp
  have rr: "(x * T) mod y = r"
    unfolding N r_def by simp
  have r: "0 \<le> r" "r < y"
    using assms(1) by (simp_all add: r_def)
  have sT: "s * T = u * y + r"
    by (simp add: u_def r_def)
  have "s * T \<le> (y - 1) * T"
    using s assms(2) by (intro mult_right_mono) auto
  then have le: "u * y + r \<le> y * T - T"
    using sT by (simp add: algebra_simps)
  have u0: "0 \<le> u"
    using s assms(1,2) by (simp add: u_def pos_imp_zdiv_nonneg_iff)
  have uT: "u < T"
  proof (rule ccontr)
    assume "\<not> u < T"
    then have "T * y \<le> u * y"
      using assms(1) by (intro mult_right_mono) auto
    with le r assms(2) show False by (simp add: algebra_simps)
  qed
  have up: "u + 1 < T" if "y \<le> 2 * r"
  proof (rule ccontr)
    assume "\<not> u + 1 < T"
    with uT have "u = T - 1" by simp
    with le have "r \<le> y - T" by (simp add: algebra_simps)
    with that assms(3) show False by simp
  qed
  have m: "roundHalfEven (x * T) y = k * T + u \<or>
           (roundHalfEven (x * T) y = k * T + (u + 1) \<and> y \<le> 2 * r)"
    by (auto simp: roundHalfEven_def Let_def q rr)
  have "(k * T + v) div T = k" if "0 \<le> v" "v < T" for v
    using that assms(2) by simp
  then show ?thesis
    using m u0 uT up unfolding k_def [symmetric] by auto
qed

lemma quotExp_lower:
  assumes "0 < x" "0 < y"
  shows "2 ^ 52 * (y * 2 ^ nat (quotExp x y)) \<le> x * 2 ^ nat (- quotExp x y)"
proof -
  define d where "d = bitlen x - bitlen y"
  define L where "L = (if y * 2 ^ nat d \<le> x * 2 ^ nat (- d) then d else d - 1)"
  have e: "quotExp x y = L - 52"
    by (simp add: quotExp_def d_def L_def Let_def)
  have hx: "2 ^ nat (bitlen x - 1) \<le> x" "x < 2 ^ nat (bitlen x)"
    using bitlen_bounds [OF assms(1)] by auto
  have hy: "2 ^ nat (bitlen y - 1) \<le> y" "y < 2 ^ nat (bitlen y)"
    using bitlen_bounds [OF assms(2)] by auto
  have bpos: "1 \<le> bitlen x" "1 \<le> bitlen y"
    using assms bitlen_eq_zero_iff [of x] bitlen_eq_zero_iff [of y] bitlen_nonneg [of x]
      bitlen_nonneg [of y] by linarith+
  have real_form: "real_of_int (a * 2 ^ nat (- k)) / real_of_int (b * 2 ^ nat k) =
      real_of_int a / real_of_int b * 2 powi (- k)" if "0 < b" for a b k :: int
  proof (cases "0 \<le> k")
    case True
    then show ?thesis by (simp add: power_int_minus power_int_def divide_simps)
  next
    case False
    then show ?thesis by (simp add: power_int_def)
  qed
  have L: "real_of_int y * 2 powi L \<le> real_of_int x"
  proof (cases "y * 2 ^ nat d \<le> x * 2 ^ nat (- d)")
    case True
    then have "real_of_int (y * 2 ^ nat d) \<le> real_of_int (x * 2 ^ nat (- d))"
      by linarith
    then have "real_of_int y * 2 powi d \<le> real_of_int x"
      by (cases "0 \<le> d") (simp_all add: power_int_def divide_simps mult.commute)
    with True show ?thesis by (simp add: L_def)
  next
    case False
    have "real_of_int y * 2 powi (d - 1) \<le> 2 powi (bitlen y) * 2 powi (d - 1)"
      using hy(2) bpos by (intro mult_right_mono) (simp_all add: power_int_def)
    also have "\<dots> = 2 powi (bitlen x - 1)"
      by (simp add: d_def power_int_add [symmetric])
    also have "\<dots> \<le> real_of_int x"
      using hx(1) bpos by (simp add: power_int_def)
    finally show ?thesis using False by (simp add: L_def)
  qed
  have "real_of_int (2 ^ 52 * (y * 2 ^ nat (L - 52))) \<le> real_of_int (x * 2 ^ nat (- (L - 52)))"
  proof (cases "0 \<le> L - 52")
    case True
    then have "nat L = 52 + nat (L - 52)" by linarith
    then have "(2::real) ^ nat L = 2 ^ 52 * 2 ^ nat (L - 52)"
      by (simp only: power_add)
    then have "(2::real) powi L = 2 ^ 52 * 2 ^ nat (L - 52)"
      using True by (simp only: power_int_def) simp
    with L True show ?thesis by (simp add: mult_ac)
  next
    case False
    have "(2::real) ^ 52 = 2 powi L * 2 ^ nat (52 - L)"
    proof (cases "0 \<le> L")
      case True
      with False have "52 = nat L + nat (52 - L)" by linarith
      then have "(2::real) ^ 52 = 2 ^ nat L * 2 ^ nat (52 - L)"
        by (simp only: power_add [symmetric])
      then show ?thesis using True by (simp only: power_int_def) simp
    next
      case False
      then have "nat (52 - L) = 52 + nat (- L)" by linarith
      then have "(2::real) ^ nat (52 - L) = 2 ^ 52 * 2 ^ nat (- L)"
        by (simp only: power_add)
      then show ?thesis using False by (simp add: power_int_def field_simps)
    qed
    moreover have "real_of_int y * 2 powi L * 2 ^ nat (52 - L) \<le> real_of_int x * 2 ^ nat (52 - L)"
      using L by (intro mult_right_mono) simp_all
    ultimately show ?thesis using False by (simp add: mult_ac)
  qed
  then show ?thesis
    unfolding e by linarith
qed

lemma quotExp_upper:
  assumes "0 < x" "0 < y"
  shows "x * 2 ^ nat (- quotExp x y) < 2 ^ 53 * (y * 2 ^ nat (quotExp x y))"
proof -
  define d where "d = bitlen x - bitlen y"
  define L where "L = (if y * 2 ^ nat d \<le> x * 2 ^ nat (- d) then d else d - 1)"
  have e: "quotExp x y = L - 52"
    by (simp add: quotExp_def d_def L_def Let_def)
  have hx: "2 ^ nat (bitlen x - 1) \<le> x" "x < 2 ^ nat (bitlen x)"
    using bitlen_bounds [OF assms(1)] by auto
  have hy: "2 ^ nat (bitlen y - 1) \<le> y" "y < 2 ^ nat (bitlen y)"
    using bitlen_bounds [OF assms(2)] by auto
  have bpos: "1 \<le> bitlen x" "1 \<le> bitlen y"
    using assms bitlen_eq_zero_iff [of x] bitlen_eq_zero_iff [of y] bitlen_nonneg [of x]
      bitlen_nonneg [of y] by linarith+
  have L: "real_of_int x < real_of_int y * 2 powi (L + 1)"
  proof (cases "y * 2 ^ nat d \<le> x * 2 ^ nat (- d)")
    case True
    have "real_of_int x < 2 powi (bitlen x)"
      using hx(2) bpos by (simp add: power_int_def)
    also have "\<dots> = 2 powi (bitlen y - 1) * 2 powi (d + 1)"
      by (simp add: d_def power_int_add [symmetric])
    also have "\<dots> \<le> real_of_int y * 2 powi (d + 1)"
    proof (intro mult_right_mono)
      have "real_of_int (2 ^ nat (bitlen y - 1)) \<le> real_of_int y"
        using hy(1) by linarith
      then show "2 powi (bitlen y - 1) \<le> real_of_int y"
        using bpos by (simp add: power_int_def)
    qed simp
    finally show ?thesis using True by (simp add: L_def)
  next
    case False
    then have "real_of_int (x * 2 ^ nat (- d)) < real_of_int (y * 2 ^ nat d)"
      by linarith
    then have "real_of_int x < real_of_int y * 2 powi d"
      by (cases "0 \<le> d") (simp_all add: power_int_def divide_simps mult.commute)
    with False show ?thesis by (simp add: L_def)
  qed
  have "real_of_int (x * 2 ^ nat (- (L - 52))) < real_of_int (2 ^ 53 * (y * 2 ^ nat (L - 52)))"
  proof (cases "0 \<le> L - 52")
    case True
    then have "nat (L + 1) = 53 + nat (L - 52)" by linarith
    then have "(2::real) ^ nat (L + 1) = 2 ^ 53 * 2 ^ nat (L - 52)"
      by (simp only: power_add)
    then have "(2::real) powi (L + 1) = 2 ^ 53 * 2 ^ nat (L - 52)"
      using True by (simp only: power_int_def) simp
    with L True show ?thesis by (simp add: mult_ac)
  next
    case False
    have "(2::real) ^ 53 = 2 powi (L + 1) * 2 ^ nat (52 - L)"
    proof (cases "0 \<le> L + 1")
      case True
      with False have "53 = nat (L + 1) + nat (52 - L)" by linarith
      then have "(2::real) ^ 53 = 2 ^ nat (L + 1) * 2 ^ nat (52 - L)"
        by (simp only: power_add [symmetric])
      then show ?thesis using True by (simp only: power_int_def) simp
    next
      case False
      then have "nat (52 - L) = 53 + nat (- (L + 1))" by linarith
      then have "(2::real) ^ nat (52 - L) = 2 ^ 53 * 2 ^ nat (- (L + 1))"
        by (simp only: power_add)
      then show ?thesis using False by (simp add: power_int_def field_simps)
    qed
    moreover have "real_of_int x * 2 ^ nat (52 - L) < real_of_int y * 2 powi (L + 1) * 2 ^ nat (52 - L)"
      using L by (intro mult_strict_right_mono) simp_all
    ultimately show ?thesis using False by (simp add: mult_ac)
  qed
  then show ?thesis
    unfolding e by linarith
qed

lemma fdivTrunc_exact:
  assumes "0 \<le> x" "x < 2 ^ 53" "0 < y"
  shows "fdivTrunc x y = x div y"
proof (cases "x = 0")
  case True
  then show ?thesis by (simp add: fdivTrunc_def)
next
  case False
  with assms(1) have xpos: "0 < x" by simp
  define e where "e = quotExp x y"
  have low: "2 ^ 52 * (y * 2 ^ nat e) \<le> x * 2 ^ nat (- e)"
    unfolding e_def using xpos assms(3) by (rule quotExp_lower)
  have unfold: "fdivTrunc x y =
      (if 0 \<le> e then roundHalfEven (x * 2 ^ nat (- e)) (y * 2 ^ nat e) * 2 ^ nat e
       else roundHalfEven (x * 2 ^ nat (- e)) (y * 2 ^ nat e) div 2 ^ nat (- e))"
    using False by (simp add: fdivTrunc_def Let_def e_def)
  show ?thesis
  proof (cases "0 \<le> e")
    case True
    define P :: int where "P = 2 ^ nat e"
    have P: "1 \<le> P" by (simp add: P_def)
    have "2 ^ 52 * (y * P) \<le> x"
      using low True by (simp add: P_def)
    moreover have "x < 2 ^ 52 * 2"
      using assms(2) by simp
    ultimately have "2 ^ 52 * (y * P) < 2 ^ 52 * 2"
      by (rule le_less_trans)
    then have yP: "y * P < 2"
      by (simp only: mult_less_cancel_left_pos zero_less_power zero_less_numeral)
    have "y \<le> y * P"
      using mult_left_mono [of 1 P y] P assms(3) by simp
    with yP assms(3) have y1: "y = 1" by linarith
    with yP P have "P = 1" by simp
    then have p1: "(2::int) ^ nat e = 1" by (simp add: P_def)
    show ?thesis
      using True unfold by (simp add: y1 p1 roundHalfEven_def)
  next
    case False
    define T :: int where "T = 2 ^ nat (- e)"
    have T: "0 < T" by (simp add: T_def)
    have "2 ^ 52 * y \<le> x * T"
      using low False by (simp add: T_def)
    also have "x * T < 2 ^ 53 * T"
      using assms(2) T by simp
    finally have "y < 2 * T"
      by simp
    then have "roundHalfEven (x * T) y div T = x div y"
      using assms(1,3) T by (intro roundHalfEven_scaled) auto
    then show ?thesis
      using False unfold by (simp add: T_def)
  qed
qed

lemma float64_exact: "\<bar>n\<bar> < 2 ^ 53 \<Longrightarrow> float64 n = n"
  by (simp add: float64_def)

lemma roundHalfEven_ge: "num div den \<le> roundHalfEven num den"
  by (simp add: roundHalfEven_def Let_def)

lemma float64_large:
  assumes "2 ^ 53 \<le> n"
  shows "2 ^ 53 \<le> float64 n"
proof -
  have npos: "0 < n"
    by (rule less_le_trans [OF _ assms]) simp
  define sh where "sh = nat (bitlen n - 53)"
  have b: "2 ^ nat (bitlen n - 1) \<le> n" "n < 2 ^ nat (bitlen n)"
    using bitlen_bounds [OF npos] by auto
  have "(2::int) ^ 53 < 2 ^ nat (bitlen n)"
    using assms b(2) by linarith
  then have big: "53 < nat (bitlen n)"
    by (rule power_less_imp_less_exp [rotated]) simp
  then have split: "nat (bitlen n - 1) = 52 + sh" and sh: "1 \<le> sh"
    unfolding sh_def by linarith+
  have "2 ^ 52 * 2 ^ sh \<le> n"
    using b(1) by (simp only: split power_add)
  then have "(2 ^ 52 * 2 ^ sh) div 2 ^ sh \<le> n div 2 ^ sh"
    by (intro zdiv_mono1) simp_all
  then have "2 ^ 52 \<le> n div 2 ^ sh"
    by simp
  then have R: "2 ^ 52 \<le> roundHalfEven n (2 ^ sh)"
    using roundHalfEven_ge [of n "2 ^ sh"] by linarith
  have P: "(2::int) ^ 1 \<le> 2 ^ sh"
    using sh by (intro power_increasing) simp_all
  have "(2::int) ^ 52 * 2 ^ 1 \<le> roundHalfEven n (2 ^ sh) * 2 ^ sh"
    using R P by (rule mult_mono) (use R in simp_all)
  moreover have "(2::int) ^ 53 = 2 ^ 52 * 2 ^ 1"
    by simp
  ultimately have "2 ^ 53 \<le> roundHalfEven n (2 ^ sh) * 2 ^ sh"
    by linarith
  then show ?thesis
    using assms npos by (simp add: float64_def Let_def sh_def)
qed

lemma truncQuot_exact:
  assumes "0 \<le> a" "a < 2 ^ 53" "0 < b"
  shows "truncQuot a b = Some (a div b)"
proof -
  have fa: "float64 a = a"
    using assms(1,2) by (simp add: float64_exact)
  have fb: "0 < float64 b \<and> a div float64 b = a div b"
  proof (cases "b < 2 ^ 53")
    case True
    then show ?thesis using assms(3) by (simp add: float64_exact)
  next
    case False
    then have "2 ^ 53 \<le> float64 b"
      by (intro float64_large) simp
    with False assms show ?thesis by simp
  qed
  have q: "fdivTrunc \<bar>float64 a\<bar> \<bar>float64 b\<bar> = a div b"
    using fdivTrunc_exact [of a "float64 b"] assms fa fb by simp
  have range: "0 \<le> a div b" "a div b \<le> a"
    using assms zdiv_mono2 [of a 1 b] by (simp_all add: pos_imp_zdiv_nonneg_iff)
  have "sgn a * sgn b * (a div b) = a div b"
    using assms by (cases "a = 0") simp_all
  then have eq: "sgn a * sgn b * fdivTrunc \<bar>float64 a\<bar> \<bar>float64 b\<bar> = a div b"
    by (simp only: q)
  have "- (2 ^ 63) \<le> a div b \<and> a div b < 2 ^ 63"
    using assms(2) range by simp
  then show ?thesis
    using assms(3) unfolding truncQuot_def Let_def eq by simp
qed

section \<open>What the planner computes\<close>

lemma segmentLoop_plan:
  assumes "\<forall>k. i \<le> k \<and> k < s \<longrightarrow> truncQuot (T + k) s = Some (f k)"
  shows "segmentLoop T s b i off = Some (plan f b i off (nat (s - i)))"
  using assms
proof (induction T s b i off rule: segmentLoop.induct)
  case (1 T s b i off)
  show ?case
  proof (cases "i < s")
    case False
    then show ?thesis by (subst segmentLoop.simps) simp
  next
    case True
    have q: "truncQuot (T + i) s = Some (f i)"
      using "1.prems" True by simp
    have rest: "segmentLoop T s b (i + 1) (off + f i * b) =
        Some (plan f b (i + 1) (off + f i * b) (nat (s - (i + 1))))"
      using "1.IH" [OF True q] "1.prems" by simp
    have n: "nat (s - i) = Suc (nat (s - (i + 1)))"
      using True by linarith
    show ?thesis
      by (subst segmentLoop.simps) (simp add: True q rest n)
  qed
qed

lemma length_plan [simp]: "length (plan f b i off n) = n"
  by (induction n arbitrary: i off) simp_all

lemma fst_plan: "k < n \<Longrightarrow> fst (plan f b i off n ! k) = f (i + int k)"
proof (induction n arbitrary: i off k)
  case 0
  then show ?case by simp
next
  case (Suc n)
  then show ?case by (cases k) (simp_all add: add.assoc)
qed

lemma map_fst_plan: "map fst (plan f b i off n) = map (\<lambda>k. f (i + int k)) [0..<n]"
  by (rule nth_equalityI) (simp_all add: fst_plan)

lemma snd_plan:
  "k < n \<Longrightarrow> snd (plan f b i off n ! k) = off + (\<Sum>l<k. f (i + int l)) * b"
proof (induction n arbitrary: i off k)
  case 0
  then show ?case by simp
next
  case (Suc n)
  show ?case
  proof (cases k)
    case 0
    then show ?thesis by simp
  next
    case (Suc k')
    have "(\<Sum>l<Suc k'. f (i + int l)) = f (i + int 0) + (\<Sum>l<k'. f (i + int (Suc l)))"
      by (rule sum.lessThan_Suc_shift)
    also have "\<dots> = f i + (\<Sum>l<k'. f (i + 1 + int l))"
      by (simp add: add.assoc add.commute add.left_commute)
    finally have "(\<Sum>l<Suc k'. f (i + int l)) = f i + (\<Sum>l<k'. f (i + 1 + int l))" .
    with Suc Suc.prems Suc.IH [of k' "i + 1" "off + f i * b"] show ?thesis
      by (simp add: algebra_simps)
  qed
qed

lemma hermite_sum:
  assumes "0 < n"
  shows "(\<Sum>k<n. (int t + int k) div int n) = int t"
proof (induction t)
  case 0
  have "int k div int n = 0" if "k < n" for k
    using that by simp
  then show ?case by simp
next
  case (Suc t)
  let ?g = "\<lambda>k. (int t + int k) div int n"
  have "(\<Sum>k<n. (int (Suc t) + int k) div int n) = (\<Sum>k<n. ?g (Suc k))"
    by (simp add: add.assoc add.commute add.left_commute)
  also have "\<dots> = (\<Sum>k<Suc n. ?g k) - ?g 0"
    by (simp add: sum.lessThan_Suc_shift del: sum.lessThan_Suc)
  also have "\<dots> = (\<Sum>k<n. ?g k) + ?g n - ?g 0"
    by simp
  also have "?g n = ?g 0 + 1"
    using assms by simp
  finally show ?case
    using Suc by simp
qed

lemma segmentLoop_exact:
  assumes "0 \<le> T" "1 \<le> s" "T + s \<le> 2 ^ 53"
  shows "segmentLoop T s b 0 off = Some (plan (\<lambda>k. (T + k) div s) b 0 off (nat s))"
proof -
  have "truncQuot (T + k) s = Some ((T + k) div s)" if "0 \<le> k" "k < s" for k
    using that assms by (intro truncQuot_exact) simp_all
  then have "segmentLoop T s b 0 off = Some (plan (\<lambda>k. (T + k) div s) b 0 off (nat (s - 0)))"
    by (intro segmentLoop_plan) simp
  then show ?thesis by simp
qed

lemma reads_sum:
  assumes "0 \<le> T" "1 \<le> s"
  shows "(\<Sum>k<nat s. (T + int k) div s) = T"
  using hermite_sum [of "nat s" "nat T"] assms by simp

lemma reads_step:
  assumes "1 \<le> s" "i \<le> j" "j < nat s"
  shows "(T + int i) div s \<le> (T + int j) div s \<and> (T + int j) div s \<le> (T + int i) div s + 1"
proof -
  have "(T + int i) div s \<le> (T + int j) div s"
    using assms by (intro zdiv_mono1) simp_all
  moreover have "(T + int j) div s \<le> (T + int i + s) div s"
    using assms by (intro zdiv_mono1) simp_all
  moreover have "(T + int i + s) div s = (T + int i) div s + 1"
    using assms by simp
  ultimately show ?thesis by simp
qed

lemma readCountTotal_exact:
  assumes "0 \<le> fsize" "fsize < 2 ^ 53" "0 < b"
  shows "readCountTotal fsize b = Some (fsize div b + (if b dvd fsize then 0 else 1))"
proof -
  have "fsize - fsize div b * b = fsize mod b"
    by (simp add: minus_div_mult_eq_mod)
  moreover have "0 \<le> fsize mod b"
    using assms(3) by simp
  then have "0 < fsize mod b \<longleftrightarrow> \<not> b dvd fsize"
    by (auto simp: dvd_eq_mod_eq_0 less_le)
  ultimately show ?thesis
    using truncQuot_exact [OF assms] by (simp add: readCountTotal_def)
qed

lemma reads_bounded:
  fixes fsize b :: int
  assumes "0 \<le> fsize" "0 < b"
  shows "0 \<le> fsize div b + (if b dvd fsize then 0 else 1)"
    and "fsize div b + (if b dvd fsize then 0 else 1) \<le> fsize"
proof -
  have "0 \<le> fsize div b"
    using assms by (simp add: pos_imp_zdiv_nonneg_iff)
  then show "0 \<le> fsize div b + (if b dvd fsize then 0 else 1)"
    by simp
  show "fsize div b + (if b dvd fsize then 0 else 1) \<le> fsize"
  proof (cases "b dvd fsize")
    case True
    then show ?thesis
      using assms zdiv_mono2 [of fsize 1 b] by simp
  next
    case False
    then have "1 < b"
      using assms(2) by (cases "b = 1") auto
    have q: "0 \<le> fsize div b"
      using assms by (simp add: pos_imp_zdiv_nonneg_iff)
    have "0 \<le> fsize mod b"
      using assms(2) by simp
    then have r: "0 < fsize mod b"
      using False by (auto simp: dvd_eq_mod_eq_0 less_le)
    have "fsize div b * 2 \<le> fsize div b * b"
      using q \<open>1 < b\<close> by (intro mult_left_mono) simp_all
    moreover have "fsize = fsize div b * b + fsize mod b"
      by simp
    ultimately have "fsize div b + 1 \<le> fsize"
      using r q by linarith
    then show ?thesis
      using False by simp
  qed
qed


section \<open>Workers on a regular file\<close>

text \<open>
  As long as every planned read starts inside the file, and the buffer or the file is
  no longer than one \<^verbatim>\<open>Read\<close> delivers, each read of a worker delivers
  the next bytes of the file, a full buffer except possibly for the last read of the
  file, and the worker sends the number of delimiters in the bytes of its segment.
\<close>

lemma scan_all_scanned:
  assumes "0 \<le> buffersize"
    and "\<forall>i<nat repeatCount. scanned (nat buffersize) (nthRead Read i (replicate (nat buffersize) 0, r))"
  shows "getNumOfCharsOnIo Read r buffersize repeatCount =
           Inr ((int (count_list
                   (deliveredUpTo Read (replicate (nat buffersize) 0, r) (nat repeatCount))
                   delimiter), None),
                afterReads Read (nat repeatCount) (replicate (nat buffersize) 0, r))"
proof (cases "0 \<le> repeatCount")
  case True
  let ?s = "(replicate (nat buffersize) (0 :: byte), r)"
  have "\<forall>i<nat repeatCount. scanned (length (fst ?s)) (nthRead Read i ?s)"
    using assms(2) by simp
  then have "readLoop Read repeatCount 0 0 ?s =
      readLoop Read repeatCount (0 + int (nat repeatCount))
        (0 + int (count_list (deliveredUpTo Read ?s (nat repeatCount)) delimiter))
        (afterReads Read (nat repeatCount) ?s)"
    by (rule readLoop_scanned) (use True in simp)
  then show ?thesis
    using assms(1) True by (simp add: getNumOfCharsOnIo_def readLoop_end)
next
  case False
  then show ?thesis
    using assms(1) by (simp add: getNumOfCharsOnIo_def readLoop_end deliveredUpTo_def)
qed

lemma readStep_file:
  assumes "buf \<noteq> []" "pos f < length (contents f)"
    and "int (length buf) \<le> maxRW \<or> int (length (contents f)) \<le> maxRW"
  shows "readStep fileRead (buf, f) =
           ((int (min (length buf) (length (contents f) - pos f)), None),
            (take (length buf) (drop (pos f) (contents f)) @
               drop (min (length buf) (length (contents f) - pos f)) buf,
             f\<lparr>pos := pos f + min (length buf) (length (contents f) - pos f),
               calls := calls f + 1\<rparr>))"
proof -
  have same: "take (nat (min (int (length buf)) maxRW)) (drop (pos f) (contents f)) =
      take (length buf) (drop (pos f) (contents f))"
  proof (cases "int (length buf) \<le> maxRW")
    case True
    then show ?thesis by (simp add: min_def)
  next
    case False
    with assms(3) have "length (drop (pos f) (contents f)) \<le> nat (min (int (length buf)) maxRW)"
      by (simp add: min_def)
    then show ?thesis by simp
  qed
  have uncapped: "fileRead f buf =
      (let d = take (length buf) (drop (pos f) (contents f));
           f' = f\<lparr>pos := pos f + length d, calls := calls f + 1\<rparr>
       in if buf = [] then ((0, None), [], f')
          else if d = [] then ((0, Some EOF), [], f')
          else ((int (length d), None), d, f'))"
    unfolding fileRead_def same ..
  have "take (length buf) (drop (pos f) (contents f)) \<noteq> []"
    using assms(1,2) by simp
  then show ?thesis
    using assms(1)
    by (simp add: readStep_def uncapped overwrite_def Let_def min.commute)
qed

lemma file_reads:
  assumes "buf \<noteq> []" "\<forall>i<k. pos f + i * length buf < length (contents f)"
    and "int (length buf) \<le> maxRW \<or> int (length (contents f)) \<le> maxRW"
  shows "(\<forall>i<k. scanned (length buf) (nthRead fileRead i (buf, f))) \<and>
         deliveredUpTo fileRead (buf, f) k = take (k * length buf) (drop (pos f) (contents f)) \<and>
         calls (snd (afterReads fileRead k (buf, f))) = calls f + k \<and>
         contents (snd (afterReads fileRead k (buf, f))) = contents f"
  using assms
proof (induction k arbitrary: buf f)
  case 0
  show ?case by (simp add: deliveredUpTo_def)
next
  case (Suc k)
  let ?B = "length buf"
  let ?n = "min ?B (length (contents f) - pos f)"
  let ?d = "take ?B (drop (pos f) (contents f))"
  let ?buf' = "?d @ drop ?n buf"
  let ?f' = "f\<lparr>pos := pos f + ?n, calls := calls f + 1\<rparr>"
  have p0: "pos f < length (contents f)"
    using Suc.prems(2) by (auto dest: spec [of _ 0])
  have rs: "readStep fileRead (buf, f) = ((int ?n, None), (?buf', ?f'))"
    using Suc.prems(1) p0 Suc.prems(3) by (rule readStep_file)
  have npos: "0 < ?n"
    using Suc.prems(1) p0 by simp
  have len': "length ?buf' = ?B"
    by simp
  have first: "scanned ?B (nthRead fileRead 0 (buf, f))"
    using rs npos by (simp add: nthRead_def scanned_def)
  have "take ?n (drop (pos f) (contents f)) = ?d"
    by (cases "?B \<le> length (contents f) - pos f") (simp_all add: min_def)
  then have d0: "delivered fileRead (buf, f) 0 = ?d"
    using rs by (simp add: delivered_def nthRead_def)
  have full: "?n = ?B" if "0 < k"
    using Suc.prems(2) that by (auto dest!: spec [of _ 1])
  have rest_pre: "\<forall>i<k. pos ?f' + i * length ?buf' < length (contents ?f')"
  proof (intro allI impI)
    fix i assume i: "i < k"
    then have "pos f + Suc i * ?B < length (contents f)"
      using Suc.prems(2) by auto
    moreover have "?n = ?B" using full i by simp
    ultimately show "pos ?f' + i * length ?buf' < length (contents ?f')"
      by (simp add: algebra_simps)
  qed
  have ne': "?buf' \<noteq> []"
    using len' Suc.prems(1) by (metis length_0_conv)
  have cap': "int (length ?buf') \<le> maxRW \<or> int (length (contents ?f')) \<le> maxRW"
    using Suc.prems(3) len' by simp
  note IH = Suc.IH [OF ne' rest_pre cap']
  have sc: "\<forall>i<Suc k. scanned ?B (nthRead fileRead i (buf, f))"
  proof (intro allI impI)
    fix i assume "i < Suc k"
    show "scanned ?B (nthRead fileRead i (buf, f))"
    proof (cases i)
      case 0
      with first show ?thesis by simp
    next
      case (Suc j)
      with \<open>i < Suc k\<close> IH len' rs show ?thesis
        by (simp add: nthRead_Suc)
    qed
  qed
  have "deliveredUpTo fileRead (buf, f) (Suc k) =
          ?d @ take (k * ?B) (drop (pos ?f') (contents f))"
    using IH rs d0 len' by (simp add: deliveredUpTo_Suc)
  also have "\<dots> = take (Suc k * ?B) (drop (pos f) (contents f))"
  proof (cases "0 < k")
    case False
    then show ?thesis by simp
  next
    case True
    then have "?n = ?B" by (rule full)
    then show ?thesis
      by (simp add: take_add add.commute)
  qed
  finally have dl: "deliveredUpTo fileRead (buf, f) (Suc k) =
      take (Suc k * ?B) (drop (pos f) (contents f))" .
  have "afterReads fileRead (Suc k) (buf, f) = afterReads fileRead k (?buf', ?f')"
    using rs by simp
  then show ?case
    using sc dl IH by simp
qed

lemma countWorker_regular:
  assumes "openFile filename = Inr f" "seekErr f = None" "0 \<le> off" "0 < b"
    and "\<forall>i<nat r. nat off + i * nat b < length (contents f)"
    and "b \<le> maxRW \<or> int (length (contents f)) \<le> maxRW"
  shows "events (countWorker openFile filename r off b) =
           Close # deferred (int (count_list
             (take (nat r * nat b) (drop (nat off) (contents f))) delimiter)) \<and>
         panicked (countWorker openFile filename r off b) = None \<and>
         map_option calls (handle (countWorker openFile filename r off b)) =
           Some (calls f + nat r) \<and>
         readCount (countWorker openFile filename r off b) = r \<and>
         startOffset (countWorker openFile filename r off b) = off"
proof -
  let ?f = "f\<lparr>pos := nat off\<rparr>"
  let ?buf = "replicate (nat b) (0 :: byte)"
  have seek: "fileSeek f off = Inr ?f"
    using assms(2,3) by (simp add: fileSeek_def)
  have ne: "?buf \<noteq> []"
    using assms(4) by simp
  have pre: "\<forall>i<nat r. pos ?f + i * length ?buf < length (contents ?f)"
    using assms(5) by simp
  have cap: "int (length ?buf) \<le> maxRW \<or> int (length (contents ?f)) \<le> maxRW"
    using assms(4,6) by simp
  note fr = file_reads [OF ne pre cap]
  have sc: "\<forall>i<nat r. scanned (nat b) (nthRead fileRead i (?buf, ?f))"
    using fr by simp
  have "getNumOfCharsOnIo fileRead ?f b r =
      Inr ((int (count_list (deliveredUpTo fileRead (?buf, ?f) (nat r)) delimiter), None),
           afterReads fileRead (nat r) (?buf, ?f))"
    using assms(4) sc by (intro scan_all_scanned) simp_all
  then show ?thesis
    using assms(1) seek fr by (simp add: countWorker_def)
qed

lemma countWorker_failed:
  assumes "openFile filename = Inl err \<or>
           (\<exists>f. openFile filename = Inr f \<and> fileSeek f off = Inl err)"
  shows "sent (events (countWorker openFile filename r off b)) = [0] \<and>
         panicked (countWorker openFile filename r off b) = None"
  using assms by (auto simp: countWorker_def deferred_def)

lemma sent_countWorker:
  "\<exists>c. sent (events (countWorker openFile filename r off b)) = [c]"
  by (auto simp: countWorker_def deferred_def split: sum.splits prod.splits)

lemma countWorker_events:
  "\<exists>c. events (countWorker openFile filename r off b) = deferred c \<or>
       events (countWorker openFile filename r off b) = Close # deferred c"
  by (auto simp: countWorker_def split: sum.splits prod.splits)

lemma runWorkers_all:
  assumes "\<forall>j<length segs.
             panicked (countWorker (os (Suc (i + j))) path (fst (segs ! j)) (snd (segs ! j)) b) = None"
  shows "runWorkers os path b i segs =
           map (\<lambda>j. countWorker (os (Suc (i + j))) path (fst (segs ! j)) (snd (segs ! j)) b)
             [0..<length segs]"
  using assms
proof (induction segs arbitrary: i)
  case Nil
  show ?case by simp
next
  case (Cons seg segs)
  obtain r off where seg: "seg = (r, off)" by (cases seg)
  have head: "panicked (countWorker (os (Suc i)) path r off b) = None"
    using Cons.prems seg by (auto dest: spec [of _ 0])
  have "\<forall>j<length segs.
      panicked (countWorker (os (Suc (Suc i + j))) path (fst (segs ! j)) (snd (segs ! j)) b) = None"
    using Cons.prems by (auto dest: spec [of _ "Suc _"])
  then have rest: "runWorkers os path b (Suc i) segs =
      map (\<lambda>j. countWorker (os (Suc (Suc i + j))) path (fst (segs ! j)) (snd (segs ! j)) b)
        [0..<length segs]"
    by (rule Cons.IH)
  have "[0..<length (seg # segs)] = 0 # map Suc [0..<length segs]"
    by (simp add: upt_conv_Cons map_Suc_upt del: upt_Suc)
  then show ?case
    using head rest seg by (simp add: Let_def comp_def del: upt_Suc)
qed

lemma receiver_sum: "receiver cs = sum_list cs"
proof -
  have "fold (\<lambda>c cAll. cAll + c) cs a = a + sum_list cs" for a
    by (induction cs arbitrary: a) (simp_all add: add.assoc)
  then show ?thesis by (simp add: receiver_def)
qed

lemma firstPanic_none: "(\<forall>w\<in>set ws. panicked w = None) \<Longrightarrow> firstPanic ws = None"
  by (simp add: firstPanic_def filter_empty_conv split: list.splits)

lemma sequentialScan_count: "sequentialScan cs = int (count_list cs delimiter)"
  by (induction cs) simp_all

lemma tiles_count:
  fixes n :: nat
  shows "(\<Sum>j<n. int (count_list (take (G j * B) (drop ((\<Sum>l<j. G l) * B) cs)) c)) =
     int (count_list (take ((\<Sum>l<n. G l) * B) cs) c)"
proof (induction n)
  case 0
  show ?case by simp
next
  case (Suc n)
  have "take ((\<Sum>l<Suc n. G l) * B) cs =
      take ((\<Sum>l<n. G l) * B) cs @ take (G n * B) (drop ((\<Sum>l<n. G l) * B) cs)"
    by (simp add: take_add add_mult_distrib)
  then show ?case
    using Suc by simp
qed

lemma cover_nat:
  fixes L B :: nat
  assumes "0 < B"
  defines "T \<equiv> L div B + (if B dvd L then 0 else 1)"
  shows "L \<le> T * B" and "0 < T \<Longrightarrow> (T - 1) * B < L"
proof -
  have split: "L = L div B * B + L mod B"
    by simp
  show "L \<le> T * B"
  proof (cases "B dvd L")
    case True
    then show ?thesis by (simp add: T_def)
  next
    case False
    have "L mod B < B" using assms(1) by simp
    with split have "L < L div B * B + B" by linarith
    with False show ?thesis by (simp add: T_def)
  qed
  show "(T - 1) * B < L" if "0 < T"
  proof (cases "B dvd L")
    case True
    with that have "0 < L div B" by (simp add: T_def)
    moreover have "L div B * B = L" using True by simp
    ultimately have "(L div B - 1) * B < L"
      using assms(1) by (metis Suc_pred diff_Suc_1 less_add_same_cancel2 mult_Suc)
    with True show ?thesis by (simp add: T_def)
  next
    case False
    then have "0 < L mod B" by (simp add: dvd_eq_mod_eq_0)
    with split have "L div B * B < L" by linarith
    with False show ?thesis by (simp add: T_def)
  qed
qed

lemma run_regular:
  fixes path :: string and cs :: "byte list" and s t b :: int
  assumes "1 \<le> s" "1 \<le> t" "0 < b" "int (length cs) + s \<le> 2 ^ 53"
    and "b \<le> 2 ^ 30 \<or> int (length cs) \<le> 2 ^ 30"
  defines "T \<equiv> int (length cs) div b + (if b dvd int (length cs) then 0 else 1)"
  defines "r \<equiv> getNumOfLines (holding path cs) path s t b"
  shows "outcome r = Returned (sequentialScan cs) None"
    and "length (workers r) = nat s"
    and "\<forall>j<nat s. readCount (workers r ! j) = (T + int j) div s \<and>
           panicked (workers r ! j) = None \<and>
           map_option calls (handle (workers r ! j)) = Some (nat ((T + int j) div s))"
proof -
  let ?L = "length cs"
  let ?B = "nat b"
  define g where "g = (\<lambda>k. (T + k) div s)"
  define G where "G = (\<lambda>j. nat (g (int j)))"
  define segs where "segs = plan g b 0 0 (nat s)"
  define c where "c = (\<lambda>j. int (count_list (take (G j * ?B) (drop ((\<Sum>l<j. G l) * ?B) cs)) delimiter))"
  let ?os = "holding path cs"
  let ?w = "\<lambda>j. countWorker (?os (Suc (0 + j))) path (fst (segs ! j)) (snd (segs ! j)) b"
  have T: "0 \<le> T" "T \<le> int ?L"
    unfolding T_def using reads_bounded [of "int ?L" b] assms(3) by simp_all
  have size: "getFileSize ?os path = Inr (int ?L)"
    by (simp add: getFileSize_def holding_def regularFile_def)
  have rc: "readCountTotal (int ?L) b = Some T"
    unfolding T_def using assms by (intro readCountTotal_exact) simp_all
  have sl: "segmentLoop T s b 0 0 = Some segs"
    unfolding segs_def g_def using T assms by (intro segmentLoop_exact) simp_all
  have len: "length segs = nat s"
    by (simp add: segs_def)
  have g0: "0 \<le> g k" if "0 \<le> k" for k
    using that T assms(1) by (simp add: g_def pos_imp_zdiv_nonneg_iff)
  have Gg: "int (G j) = g (int j)" for j
    using g0 [of "int j"] by (simp add: G_def)
  have sumG: "int (\<Sum>l<j. G l) = (\<Sum>l<j. g (int l))" for j
    by (simp add: Gg)
  have rd: "fst (segs ! j) = g (int j)" if "j < nat s" for j
    using that by (simp add: segs_def fst_plan)
  have off: "snd (segs ! j) = int ((\<Sum>l<j. G l) * ?B)" if "j < nat s" for j
    using that assms(3) by (simp add: segs_def snd_plan Gg)
  have total: "(\<Sum>l<nat s. G l) = nat T"
  proof -
    have "int (\<Sum>l<nat s. G l) = T"
      using reads_sum [of T s] T assms(1) by (simp add: Gg g_def)
    then show ?thesis by linarith
  qed
  have TB: "nat T = ?L div ?B + (if ?B dvd ?L then 0 else 1)"
  proof -
    have "int (?L div ?B) = int ?L div b"
      using assms(3) by (simp add: zdiv_int)
    moreover have "?B dvd ?L \<longleftrightarrow> b dvd int ?L"
      using assms(3) by (metis int_dvd_int_iff int_nat_eq less_imp_le)
    ultimately show ?thesis
      unfolding T_def by (auto simp: nat_add_distrib)
  qed
  have Bpos: "0 < ?B" using assms(3) by simp
  have cover: "?L \<le> nat T * ?B" and short: "0 < nat T \<Longrightarrow> (nat T - 1) * ?B < ?L"
    unfolding TB using cover_nat [OF Bpos, of ?L] by simp_all
  have partial: "(\<Sum>l<j. G l) + G j \<le> nat T" if "j < nat s" for j
  proof -
    have "(\<Sum>l<Suc j. G l) \<le> (\<Sum>l<nat s. G l)"
      using that by (intro sum_mono2) auto
    then show ?thesis using total by simp
  qed
  have inside: "\<forall>i<G j. (\<Sum>l<j. G l) * ?B + i * ?B < ?L" if "j < nat s" for j
  proof (intro allI impI)
    fix i assume "i < G j"
    with partial [OF that] have le: "(\<Sum>l<j. G l) + i \<le> nat T - 1" and "0 < nat T"
      by linarith+
    have "((\<Sum>l<j. G l) + i) * ?B \<le> (nat T - 1) * ?B"
      using le by (rule mult_le_mono1)
    also have "\<dots> < ?L"
      using \<open>0 < nat T\<close> by (rule short)
    finally show "(\<Sum>l<j. G l) * ?B + i * ?B < ?L"
      by (simp add: add_mult_distrib)
  qed
  have worker: "events (?w j) = Close # deferred (c j) \<and> panicked (?w j) = None \<and>
      map_option calls (handle (?w j)) = Some (G j) \<and> readCount (?w j) = g (int j)"
    if "j < nat s" for j
  proof -
    define R where "R = g (int j)"
    define so where "so = int ((\<Sum>l<j. G l) * nat b)"
    have nR: "nat R = G j"
      by (simp add: R_def G_def)
    have nso: "nat so = (\<Sum>l<j. G l) * ?B"
      unfolding so_def by (rule nat_int)
    have so0: "0 \<le> so"
      unfolding so_def by (rule of_nat_0_le_iff)
    have rf: "contents (regularFile cs) = cs" "calls (regularFile cs) = 0"
      "seekErr (regularFile cs) = None"
      by (simp_all add: regularFile_def)
    have cap: "b \<le> maxRW \<or> int (length (contents (regularFile cs))) \<le> maxRW"
      using assms(5) by (simp add: maxRW_def regularFile_def)
    have "\<forall>i<nat R. nat so + i * ?B < length (contents (regularFile cs))"
      unfolding nR nso rf using inside [OF that] .
    then have cw: "events (countWorker (?os (Suc (0 + j))) path R so b) =
           Close # deferred (int (count_list
             (take (nat R * ?B) (drop (nat so) (contents (regularFile cs)))) delimiter)) \<and>
         panicked (countWorker (?os (Suc (0 + j))) path R so b) = None \<and>
         map_option calls (handle (countWorker (?os (Suc (0 + j))) path R so b)) =
           Some (calls (regularFile cs) + nat R) \<and>
         readCount (countWorker (?os (Suc (0 + j))) path R so b) = R \<and>
         startOffset (countWorker (?os (Suc (0 + j))) path R so b) = so"
      using assms(3) so0 rf(3) cap
      by (intro countWorker_regular) (simp_all add: holding_def)
    have "?w j = countWorker (?os (Suc (0 + j))) path R so b"
      using rd [OF that] off [OF that] by (simp only: R_def so_def)
    then show ?thesis
      using cw unfolding nR nso rf c_def by (simp add: R_def)
  qed
  have ws: "runWorkers ?os path b 0 segs = map ?w [0..<nat s]"
    using runWorkers_all [of segs ?os 0 path b] worker len by simp
  have nopanic: "firstPanic (map ?w [0..<nat s]) = None"
    using worker by (intro firstPanic_none) auto
  have "concat (map (sent \<circ> events) (map ?w [0..<nat s])) = map c [0..<nat s]"
  proof -
    have "(sent \<circ> events) (?w j) = [c j]" if "j < nat s" for j
      using worker [OF that] by (simp add: deferred_def)
    then have "map (sent \<circ> events) (map ?w [0..<nat s]) = map (\<lambda>j. [c j]) [0..<nat s]"
      by simp
    then show ?thesis
      by (simp del: map_map)
  qed
  then have "receiver (concat (map (sent \<circ> events) (map ?w [0..<nat s]))) = (\<Sum>j<nat s. c j)"
    by (simp add: receiver_sum interv_sum_list_conv_sum_set_nat atLeast0LessThan)
  also have "\<dots> = int (count_list (take ((\<Sum>l<nat s. G l) * ?B) cs) delimiter)"
    unfolding c_def by (rule tiles_count)
  also have "\<dots> = sequentialScan cs"
    using cover by (simp add: total sequentialScan_count)
  finally have sum: "receiver (concat (map (sent \<circ> events) (map ?w [0..<nat s]))) =
      sequentialScan cs" .
  have run: "r = \<lparr>outcome = Returned (sequentialScan cs) None, workers = map ?w [0..<nat s]\<rparr>"
    using assms(1,2) size rc sl ws nopanic sum len
    by (auto simp: r_def getNumOfLines_def Let_def)
  show "outcome r = Returned (sequentialScan cs) None"
    by (simp add: run)
  show "length (workers r) = nat s"
    by (simp add: run)
  show "\<forall>j<nat s. readCount (workers r ! j) = (T + int j) div s \<and>
           panicked (workers r ! j) = None \<and>
           map_option calls (handle (workers r ! j)) = Some (nat ((T + int j) div s))"
    using worker by (simp add: run g_def G_def)
qed

lemma run_one_segment_beyond_float64:
  fixes path :: string and cs :: "byte list"
  assumes "length cs = 9007199254740993"
  shows "outcome (getNumOfLines (holding path cs) path 1 1 1) =
           Returned (int (count_list (take 9007199254740992 cs) delimiter)) None"
proof -
  let ?os = "holding path cs"
  have size: "getFileSize ?os path = Inr 9007199254740993"
    using assms by (simp add: getFileSize_def holding_def regularFile_def)
  have rc: "readCountTotal 9007199254740993 1 = Some 9007199254740993"
    by code_simp
  have sl: "segmentLoop 9007199254740993 1 1 0 0 = Some [(9007199254740992, 0)]"
    by code_simp
  have "\<forall>i<nat 9007199254740992. nat 0 + i * nat 1 < length (contents (regularFile cs))"
    using assms by (simp add: regularFile_def)
  then have w: "events (countWorker (?os (Suc 0)) path 9007199254740992 0 1) =
           Close # deferred (int (count_list
             (take (nat 9007199254740992 * nat 1) (drop (nat 0) (contents (regularFile cs))))
             delimiter)) \<and>
         panicked (countWorker (?os (Suc 0)) path 9007199254740992 0 1) = None"
    using countWorker_regular [of "?os (Suc 0)" path "regularFile cs" 0 1 9007199254740992]
    by (simp add: holding_def regularFile_def maxRW_def)
  then have ws: "runWorkers ?os path 1 0 [(9007199254740992, 0)] =
      [countWorker (?os (Suc 0)) path 9007199254740992 0 1]"
    by (simp add: Let_def)
  show ?thesis
    using size rc sl ws w
    by (simp add: getNumOfLines_def firstPanic_def receiver_def deferred_def regularFile_def)
qed

lemma run_one_segment_short_read:
  fixes path :: string and cs :: "byte list"
  assumes "length cs = 1073741825"
  shows "outcome (getNumOfLines (holding path cs) path 1 1 1073741825) =
           Returned (int (count_list (take 1073741824 cs) delimiter)) None"
proof -
  let ?os = "holding path cs"
  let ?buf = "replicate (nat 1073741825) (0 :: byte)"
  let ?f = "regularFile cs"
  let ?d = "take 1073741824 cs"
  have size: "getFileSize ?os path = Inr 1073741825"
    using assms by (simp add: getFileSize_def holding_def regularFile_def)
  have rc: "readCountTotal 1073741825 1073741825 = Some 1"
    by code_simp
  have sl: "segmentLoop 1 1 1073741825 0 0 = Some [(1, 0)]"
    by code_simp
  have cut: "nat (min (int (length ?buf)) maxRW) = 1073741824"
    by (simp add: maxRW_def)
  have len: "length ?d = 1073741824"
    using assms by simp
  then have ne: "?d \<noteq> []"
    by auto
  have "fileRead (?f\<lparr>pos := nat 0\<rparr>) ?buf =
      ((int (length ?d), None), ?d,
       ?f\<lparr>pos := nat 0 + length ?d, calls := calls ?f + 1\<rparr>)"
    unfolding fileRead_def cut using ne
    by (simp add: Let_def regularFile_def del: length_take)
  then have rs: "readStep fileRead (?buf, ?f\<lparr>pos := nat 0\<rparr>) =
      ((1073741824, None), (?d @ drop 1073741824 ?buf,
        ?f\<lparr>pos := nat 0 + length ?d, calls := calls ?f + 1\<rparr>))"
    using len by (simp add: readStep_def overwrite_def del: length_take)
  have one: "scanned (nat 1073741825) (nthRead fileRead 0 (?buf, ?f\<lparr>pos := nat 0\<rparr>))"
    using rs by (simp add: nthRead_def scanned_def)
  have del: "deliveredUpTo fileRead (?buf, ?f\<lparr>pos := nat 0\<rparr>) (nat 1) = ?d"
    using rs len by (simp add: deliveredUpTo_def delivered_def nthRead_def del: length_take)
  have scan: "getNumOfCharsOnIo fileRead (?f\<lparr>pos := nat 0\<rparr>) 1073741825 1 =
      Inr ((int (count_list ?d delimiter), None),
           afterReads fileRead (nat 1) (?buf, ?f\<lparr>pos := nat 0\<rparr>))"
    using scan_all_scanned [of 1073741825 1 fileRead "?f\<lparr>pos := nat 0\<rparr>"] one del by simp
  have w: "events (countWorker (?os (Suc 0)) path 1 0 1073741825) =
        Close # deferred (int (count_list ?d delimiter)) \<and>
      panicked (countWorker (?os (Suc 0)) path 1 0 1073741825) = None"
    using scan by (simp add: countWorker_def holding_def fileSeek_def regularFile_def)
  then have ws: "runWorkers ?os path 1073741825 0 [(1, 0)] =
      [countWorker (?os (Suc 0)) path 1 0 1073741825]"
    by (simp add: Let_def)
  show ?thesis
    using size rc sl ws w
    by (simp add: getNumOfLines_def firstPanic_def receiver_def deferred_def)
qed

lemma runWorkers_panic:
  assumes "k < length segs"
    and "\<forall>j<k. panicked (countWorker (os (Suc (i + j))) path (fst (segs ! j)) (snd (segs ! j)) b) = None"
    and "panicked (countWorker (os (Suc (i + k))) path (fst (segs ! k)) (snd (segs ! k)) b) = Some p"
  shows "firstPanic (runWorkers os path b i segs) = Some p"
  using assms
proof (induction segs arbitrary: i k)
  case Nil
  then show ?case by simp
next
  case (Cons seg segs)
  obtain r off where seg: "seg = (r, off)" by (cases seg)
  show ?case
  proof (cases k)
    case 0
    then show ?thesis
      using Cons.prems(3) seg by (simp add: Let_def firstPanic_def)
  next
    case (Suc k')
    have head: "panicked (countWorker (os (Suc i)) path r off b) = None"
      using Cons.prems(2) seg Suc by (auto dest: spec [of _ 0])
    have "\<forall>j<k'. panicked (countWorker (os (Suc (Suc i + j))) path (fst (segs ! j))
        (snd (segs ! j)) b) = None"
      using Cons.prems(2) Suc by (auto dest: spec [of _ "Suc _"])
    moreover have "panicked (countWorker (os (Suc (Suc i + k'))) path (fst (segs ! k'))
        (snd (segs ! k')) b) = Some p"
      using Cons.prems(3) Suc by simp
    moreover have "k' < length segs"
      using Cons.prems(1) Suc by simp
    ultimately have "firstPanic (runWorkers os path b (Suc i) segs) = Some p"
      by (intro Cons.IH)
    then show ?thesis
      using head seg by (simp add: Let_def firstPanic_def)
  qed
qed

lemma run_empty_beyond_float64:
  fixes path :: string
  shows "\<exists>segs. segmentLoop 0 9007199254740993 1 0 0 = Some segs \<and>
           segs ! 9007199254740992 = (1, 0) \<and>
           outcome (getNumOfLines (holding path []) path 9007199254740993 1 1) =
             Crashed (ErrorPanic EOF)"
proof -
  define f :: "int \<Rightarrow> int" where "f = (\<lambda>k. if k < 9007199254740992 then 0 else 1)"
  define segs where "segs = plan f 1 0 0 (nat 9007199254740993)"
  let ?os = "holding path []"
  have "truncQuot (0 + k) 9007199254740993 = Some (f k)"
    if "0 \<le> k \<and> k < 9007199254740993" for k
  proof (cases "k < 9007199254740992")
    case True
    then have "truncQuot k 9007199254740993 = Some (k div 9007199254740993)"
      using that by (intro truncQuot_exact) simp_all
    then show ?thesis using True that by (simp add: f_def)
  next
    case False
    with that have k: "k = 9007199254740992" by simp
    have "truncQuot 9007199254740992 9007199254740993 = Some 1"
      by code_simp
    then show ?thesis by (simp add: k f_def)
  qed
  then have sl: "segmentLoop 0 9007199254740993 1 0 0 = Some segs"
    unfolding segs_def using segmentLoop_plan [of 0 9007199254740993 0 f 1 0] by simp
  have len: "length segs = 9007199254740993"
    by (simp add: segs_def)
  have rd: "fst (segs ! j) = f (int j)" if "j < 9007199254740993" for j
    using that by (simp add: segs_def fst_plan)
  have "(\<Sum>l<j. f (0 + int l)) = 0" if "j \<le> 9007199254740992" for j
    using that by (intro sum.neutral) (simp add: f_def)
  then have off: "snd (segs ! j) = 0" if "j \<le> 9007199254740992" for j
    using that snd_plan [of j "nat 9007199254740993" f 1 0 0] by (simp add: segs_def)
  have last: "segs ! 9007199254740992 = (1, 0)"
    using rd [of 9007199254740992] off [of 9007199254740992]
    by (simp add: f_def prod_eq_iff)
  have quiet: "panicked (countWorker (?os (Suc (0 + j))) path (fst (segs ! j)) (snd (segs ! j)) 1) = None"
    if "j < 9007199254740992" for j
  proof -
    have "fst (segs ! j) = 0" "snd (segs ! j) = 0"
      using that rd [of j] off [of j] by (simp_all add: f_def)
    then show ?thesis
      using countWorker_regular [of "?os (Suc (0 + j))" path "regularFile []" 0 1 0]
      by (simp add: holding_def regularFile_def maxRW_def)
  qed
  have "panicked (countWorker (?os (Suc (0 + 9007199254740992))) path 1 0 1) =
      Some (ErrorPanic EOF)"
    by (simp add: countWorker_def holding_def regularFile_def fileSeek_def
        getNumOfCharsOnIo_def readLoop.simps [of _ 1 0] readStep_def fileRead_def)
  then have loud: "panicked (countWorker (?os (Suc (0 + 9007199254740992))) path
      (fst (segs ! 9007199254740992)) (snd (segs ! 9007199254740992)) 1) = Some (ErrorPanic EOF)"
    by (simp add: last)
  have "firstPanic (runWorkers ?os path 1 0 segs) = Some (ErrorPanic EOF)"
    using quiet loud len
      runWorkers_panic [of 9007199254740992 segs ?os 0 path 1 "ErrorPanic EOF"]
    by simp
  moreover have "getFileSize ?os path = Inr 0"
    by (simp add: getFileSize_def holding_def regularFile_def)
  moreover have "readCountTotal 0 1 = Some 0"
    by code_simp
  moreover have "segs \<noteq> []"
    using len by auto
  ultimately have "outcome (getNumOfLines ?os path 9007199254740993 1 1) =
      Crashed (ErrorPanic EOF)"
    using sl by (simp add: getNumOfLines_def Let_def)
  with sl last show ?thesis by blast
qed

section \<open>Runs that return\<close>

text \<open>
  A run returns a total without an error exactly when the size was read, the plan was
  made and no worker panicked; the total is then the sum of what the workers sent.
\<close>

lemma runWorkers_quiet:
  assumes "firstPanic (runWorkers os path b i segs) = None"
  shows "\<forall>j<length segs.
           panicked (countWorker (os (Suc (i + j))) path (fst (segs ! j)) (snd (segs ! j)) b) = None"
  using assms
proof (induction segs arbitrary: i)
  case Nil
  show ?case by simp
next
  case (Cons seg segs)
  obtain r off where seg: "seg = (r, off)" by (cases seg)
  have head: "panicked (countWorker (os (Suc i)) path r off b) = None"
    using Cons.prems seg by (auto simp: Let_def firstPanic_def split: if_splits)
  then have "firstPanic (runWorkers os path b (Suc i) segs) = None"
    using Cons.prems seg by (simp add: Let_def firstPanic_def)
  then have rest: "\<forall>j<length segs.
      panicked (countWorker (os (Suc (Suc i + j))) path (fst (segs ! j)) (snd (segs ! j)) b) = None"
    by (rule Cons.IH)
  show ?case
  proof (intro allI impI)
    fix j assume "j < length (seg # segs)"
    then show "panicked (countWorker (os (Suc (i + j))) path (fst ((seg # segs) ! j))
        (snd ((seg # segs) ! j)) b) = None"
      using head rest seg by (cases j) simp_all
  qed
qed

lemma returned_run:
  assumes "outcome (getNumOfLines os filename s t b) = Returned tot None"
  shows "\<exists>fsize T segs. getFileSize os filename = Inr fsize \<and>
           readCountTotal fsize b = Some T \<and> segmentLoop T s b 0 0 = Some segs \<and>
           0 \<le> t \<and> (t = 0 \<longrightarrow> segs = []) \<and>
           firstPanic (runWorkers os filename b 0 segs) = None \<and>
           tot = receiver (concat (map (sent \<circ> events) (runWorkers os filename b 0 segs))) \<and>
           workers (getNumOfLines os filename s t b) = runWorkers os filename b 0 segs"
  using assms
  by (auto simp: getNumOfLines_def Let_def split: sum.splits option.splits if_splits)

lemma run_returns:
  assumes "getFileSize os filename = Inr fsize" "readCountTotal fsize b = Some T"
    and "segmentLoop T s b 0 0 = Some segs" "0 \<le> t" "t = 0 \<longrightarrow> segs = []"
    and "firstPanic (runWorkers os filename b 0 segs) = None"
  shows "getNumOfLines os filename s t b =
           \<lparr>outcome = Returned (receiver (concat (map (sent \<circ> events)
                          (runWorkers os filename b 0 segs)))) None,
            workers = runWorkers os filename b 0 segs\<rparr>"
  using assms by (auto simp: getNumOfLines_def Let_def)

lemma receiver_concat:
  "receiver (concat (map f ws)) = sum_list (map (\<lambda>w. sum_list (f w)) ws)"
  unfolding receiver_sum by (induction ws) simp_all

section \<open>Claims about the scanner\<close>

text \<open>
  Claim C4. When each of the first \<open>repeatCount\<close> reads of a source fills the whole
  buffer and reports no error, the scan returns the number of delimiter bytes among the
  \<open>repeatCount * bufferSize\<close> bytes delivered, each occurrence counted once, and no
  error.
\<close>

theorem scan_full_reads:
  assumes "0 \<le> buffersize"
    and "\<forall>i<nat repeatCount.
           nthRead Read i (replicate (nat buffersize) 0, r) = (buffersize, None)"
  shows "(\<exists>s'. getNumOfCharsOnIo Read r buffersize repeatCount =
           Inr ((int (count_list
                   (deliveredUpTo Read (replicate (nat buffersize) 0, r) (nat repeatCount))
                   delimiter), None), s')) \<and>
         length (deliveredUpTo Read (replicate (nat buffersize) 0, r) (nat repeatCount)) =
           nat repeatCount * nat buffersize"
proof (rule conjI)
  let ?s = "(replicate (nat buffersize) 0, r)"
  let ?k = "nat repeatCount"
  show "length (deliveredUpTo Read ?s ?k) = ?k * nat buffersize"
    using deliveredUpTo_length [of ?k Read ?s] assms by simp
next
  let ?s = "(replicate (nat buffersize) 0, r)"
  let ?k = "nat repeatCount"
  show "\<exists>s'. getNumOfCharsOnIo Read r buffersize repeatCount =
           Inr ((int (count_list (deliveredUpTo Read ?s ?k) delimiter), None), s')"
  proof (cases "buffersize = 0")
    case False
    show ?thesis
    proof (cases "0 \<le> repeatCount")
      case True
      have "\<forall>i<?k. scanned (length (fst ?s)) (nthRead Read i ?s)"
        using assms False by (simp add: scanned_def)
      then have "readLoop Read repeatCount 0 0 ?s =
          readLoop Read repeatCount (0 + int ?k)
            (0 + int (count_list (deliveredUpTo Read ?s ?k) delimiter)) (afterReads Read ?k ?s)"
        by (rule readLoop_scanned) (use True in simp)
      then show ?thesis
        using assms(1) True by (simp add: getNumOfCharsOnIo_def readLoop_end)
    next
      case False
      then show ?thesis
        using assms(1) by (simp add: getNumOfCharsOnIo_def readLoop_end deliveredUpTo_def)
    qed
  next
    case True
    have "delivered Read ?s i = []" if "i < ?k" for i
      using assms(2) that True by (simp add: delivered_empty)
    then have "concat (map (delivered Read ?s) [0..<?k]) = []"
      by simp
    then have none: "count_list (deliveredUpTo Read ?s ?k) delimiter = 0"
      by (simp add: deliveredUpTo_def)
    show ?thesis
    proof (cases "0 < repeatCount")
      case False
      then show ?thesis
        using assms(1) none by (simp add: getNumOfCharsOnIo_def readLoop_end)
    next
      case pos: True
      then have "nthRead Read 0 ?s = (0, None)"
        using assms(2) True by (auto dest: spec [of _ 0])
      then show ?thesis
        using pos assms(1) none readLoop_stop [of 0 repeatCount Read ?s 0]
        by (simp add: getNumOfCharsOnIo_def)
    qed
  qed
qed

theorem scan_full_reads_witness:
  "nthRead fileRead 0 (replicate (nat 2) 0, regularFile [97, 10, 10, 10]) = (2, None) \<and>
   nthRead fileRead 1 (replicate (nat 2) 0, regularFile [97, 10, 10, 10]) = (2, None) \<and>
   (\<exists>s'. getNumOfCharsOnIo fileRead (regularFile [97, 10, 10, 10]) 2 2 = Inr ((3, None), s'))"
proof -
  let ?s = "(replicate (nat 2) (0 :: byte), regularFile [97, 10, 10, 10])"
  have h0: "nthRead fileRead 0 ?s = (2, None)"
    by code_simp
  have h1: "nthRead fileRead 1 ?s = (2, None)"
    by code_simp
  have h: "\<forall>i<nat 2. nthRead fileRead i ?s = (2, None)"
  proof (intro allI impI)
    fix i :: nat
    assume "i < nat 2"
    then have "i = 0 \<or> i = 1" by auto
    then show "nthRead fileRead i ?s = (2, None)"
      using h0 h1 by auto
  qed
  have d: "int (count_list (deliveredUpTo fileRead ?s (nat 2)) delimiter) = 3"
    by code_simp
  show ?thesis
    using h h0 h1 scan_full_reads [of 2 2 fileRead "regularFile [97, 10, 10, 10]"] d
    by simp
qed

text \<open>
  Claim C6. When a read answers \<open>n > 0\<close> bytes together with an error, the scan
  returns that error with the count of the reads before it: the \<open>n\<close> bytes of this
  read are not scanned.
\<close>

theorem scan_error_with_data:
  assumes "0 \<le> buffersize" and "int k < repeatCount"
    and "\<forall>i<k. scanned (nat buffersize) (nthRead Read i (replicate (nat buffersize) 0, r))"
    and "nthRead Read k (replicate (nat buffersize) 0, r) = (n, Some e)" and "0 < n"
  shows "getNumOfCharsOnIo Read r buffersize repeatCount =
           Inr ((int (count_list (deliveredUpTo Read (replicate (nat buffersize) 0, r) k) delimiter),
                 Some e),
                afterReads Read (Suc k) (replicate (nat buffersize) 0, r))"
  using scan_stops_at [OF assms(1,2,3)] assms(4) by simp

theorem scan_error_with_data_witness:
  "(0 :: int) \<le> 2 \<and> int 1 < 3 \<and>
   scanned (nat 2)
      (nthRead scriptRead 0
         (replicate (nat 2) 0, [((2, None), [10, 10]), ((1, Some EOF), [10])])) \<and>
   nthRead scriptRead 1 (replicate (nat 2) 0, [((2, None), [10, 10]), ((1, Some EOF), [10])])
     = (1, Some EOF) \<and>
   returned (getNumOfCharsOnIo scriptRead [((2, None), [10, 10]), ((1, Some EOF), [10])] 2 3)
     = Inr (2, Some EOF)"
proof -
  let ?r = "[((2, None), [10, 10]), ((1 :: int, Some EOF), [10 :: byte])]"
  let ?s = "(replicate (nat 2) (0 :: byte), ?r)"
  have h0: "scanned (nat 2) (nthRead scriptRead 0 ?s)"
    by code_simp
  have h: "\<forall>i<1. scanned (nat 2) (nthRead scriptRead i ?s)"
    using h0 by simp
  have h1: "nthRead scriptRead 1 ?s = (1, Some EOF)"
    by code_simp
  have d: "int (count_list (deliveredUpTo scriptRead ?s 1) delimiter) = 2"
    by code_simp
  show ?thesis
    using h h0 h1 d scan_error_with_data [of 2 1 3 scriptRead ?r 1 EOF]
    by (simp add: returned_def)
qed

text \<open>
  Claim C5, as the code has it. When a read answers zero bytes, the scan stops at that
  read and returns the count of the reads before it, together with whatever error that
  read reported: none only if the read reported none.
\<close>

theorem scan_zero_read:
  assumes "0 \<le> buffersize" and "int k < repeatCount"
    and "\<forall>i<k. scanned (nat buffersize) (nthRead Read i (replicate (nat buffersize) 0, r))"
    and "nthRead Read k (replicate (nat buffersize) 0, r) = (0, err)"
  shows "getNumOfCharsOnIo Read r buffersize repeatCount =
           Inr ((int (count_list (deliveredUpTo Read (replicate (nat buffersize) 0, r) k) delimiter),
                 err),
                afterReads Read (Suc k) (replicate (nat buffersize) 0, r))"
  using scan_stops_at [OF assms(1,2,3)] assms(4) by simp

theorem scan_zero_read_witness:
  "(0 :: int) \<le> 2 \<and> int 1 < 3 \<and>
   scanned (nat 2) (nthRead fileRead 0 (replicate (nat 2) 0, regularFile [10, 97])) \<and>
   nthRead fileRead 1 (replicate (nat 2) 0, regularFile [10, 97]) = (0, Some EOF) \<and>
   getNumOfCharsOnIo fileRead (regularFile [10, 97]) 2 3 =
     Inr ((1, Some EOF), afterReads fileRead 2 (replicate (nat 2) 0, regularFile [10, 97])) \<and>
   calls (snd (afterReads fileRead 2 (replicate (nat 2) 0, regularFile [10, 97]))) = 2"
proof -
  let ?s = "(replicate (nat 2) (0 :: byte), regularFile [10, 97])"
  have h0: "scanned (nat 2) (nthRead fileRead 0 ?s)"
    by code_simp
  have h: "\<forall>i<1. scanned (nat 2) (nthRead fileRead i ?s)"
    using h0 by simp
  have h1: "nthRead fileRead 1 ?s = (0, Some EOF)"
    by code_simp
  have d: "int (count_list (deliveredUpTo fileRead ?s 1) delimiter) = 1"
    by code_simp
  have c: "calls (snd (afterReads fileRead 2 ?s)) = 2"
    by code_simp
  show ?thesis
    using h h0 h1 d c scan_zero_read [of 2 1 3 fileRead "regularFile [10, 97]" "Some EOF"]
    by (simp add: numeral_2_eq_2)
qed

text \<open>
  Claim C5 as stated fails: at the end of a file the read of zero bytes reports
  \<^verbatim>\<open>io.EOF\<close>, the scan hands it to its caller as an error, and \<^verbatim>\<open>countWorker\<close>
  panics with it.
\<close>

theorem zero_read_is_an_error_for_the_caller:
  "nthRead fileRead 1 (replicate (nat 2) 0, regularFile [10, 97]) = (0, Some EOF) \<and>
   returned (getNumOfCharsOnIo fileRead (regularFile [10, 97]) 2 3) = Inr (1, Some EOF) \<and>
   panicked (countWorker (holding ''f'' [10, 97] 1) ''f'' 3 0 2) = Some (ErrorPanic EOF)"
  by code_simp

section \<open>Claims about failures of the file system\<close>

text \<open>
  Claim C8. When the open or the \<^verbatim>\<open>Stat\<close> at the top level fails,
  \<^verbatim>\<open>getNumOfLines\<close> returns total 0 with that error and has run no worker: no
  segment was planned and nothing was read.
\<close>

theorem top_level_failure:
  assumes "os 0 filename = Inl err \<or>
           (\<exists>fh. os 0 filename = Inr fh \<and> statErr fh = Some err)"
  shows "getNumOfLines os filename splitNum maxThreads buffersize =
           \<lparr>outcome = Returned 0 (Some err), workers = []\<rparr>"
  using assms by (auto simp: getNumOfLines_def getFileSize_def)

theorem top_level_failure_witness:
  "holding ''f'' [10] 0 ''g'' = Inl (Failure ''no such file'') \<and>
   getNumOfLines (holding ''f'' [10]) ''g'' 2 2 1024 =
     \<lparr>outcome = Returned 0 (Some (Failure ''no such file'')), workers = []\<rparr>"
  using top_level_failure [of "holding ''f'' [10]" "''g''" "Failure ''no such file''" 2 2 1024]
  by (simp add: holding_def)

text \<open>
  Claim C7. Take a run that returns a total without an error, and let the open of the
  worker of segment \<open>k\<close>, or its seek, fail instead. That worker still sends exactly
  one count, which is 0, and does not panic; the run still returns without an error,
  and its total is the other total less what the worker of segment \<open>k\<close> had counted.
\<close>

theorem worker_failure_is_swallowed:
  assumes "\<forall>j. j \<noteq> Suc k \<longrightarrow> os j = os' j"
    and "os (Suc k) filename = Inl err \<or>
         (\<exists>f. os (Suc k) filename = Inr f \<and> seekErr f = Some err)"
    and "outcome (getNumOfLines os' filename s t b) = Returned total' None"
    and "k < length (workers (getNumOfLines os' filename s t b))"
  shows "length (workers (getNumOfLines os filename s t b)) =
           length (workers (getNumOfLines os' filename s t b)) \<and>
         sent (events (workers (getNumOfLines os filename s t b) ! k)) = [0] \<and>
         panicked (workers (getNumOfLines os filename s t b) ! k) = None \<and>
         outcome (getNumOfLines os filename s t b) =
           Returned (total' -
             sum_list (sent (events (workers (getNumOfLines os' filename s t b) ! k)))) None"
proof -
  obtain fsize T segs where size': "getFileSize os' filename = Inr fsize"
    and rc: "readCountTotal fsize b = Some T" and sl: "segmentLoop T s b 0 0 = Some segs"
    and t: "0 \<le> t" "t = 0 \<longrightarrow> segs = []"
    and quiet': "firstPanic (runWorkers os' filename b 0 segs) = None"
    and tot': "total' = receiver (concat (map (sent \<circ> events) (runWorkers os' filename b 0 segs)))"
    and ws': "workers (getNumOfLines os' filename s t b) = runWorkers os' filename b 0 segs"
    using returned_run [OF assms(3)] by blast
  let ?n = "length segs"
  let ?W = "\<lambda>j. countWorker (os (Suc (0 + j))) filename (fst (segs ! j)) (snd (segs ! j)) b"
  let ?W' = "\<lambda>j. countWorker (os' (Suc (0 + j))) filename (fst (segs ! j)) (snd (segs ! j)) b"
  have np': "\<forall>j<?n. panicked (?W' j) = None"
    using quiet' by (rule runWorkers_quiet)
  then have all': "runWorkers os' filename b 0 segs = map ?W' [0..<?n]"
    by (rule runWorkers_all)
  have k: "k < ?n"
    using assms(4) ws' all' by simp
  have same: "?W j = ?W' j" if "j \<noteq> k" for j
    using assms(1) that by simp
  have "os (Suc k) filename = Inl err \<or>
      (\<exists>f. os (Suc k) filename = Inr f \<and> fileSeek f (snd (segs ! k)) = Inl err)"
    using assms(2) by (auto simp: fileSeek_def)
  then have failed: "sent (events (?W k)) = [0] \<and> panicked (?W k) = None"
    using countWorker_failed [of "os (Suc k)" filename err "snd (segs ! k)" "fst (segs ! k)" b]
    by simp
  have np: "\<forall>j<?n. panicked (?W j) = None"
  proof (intro allI impI)
    fix j assume "j < ?n"
    then show "panicked (?W j) = None"
      using np' failed same [of j] by (cases "j = k") simp_all
  qed
  then have all: "runWorkers os filename b 0 segs = map ?W [0..<?n]"
    by (rule runWorkers_all)
  have size: "getFileSize os filename = Inr fsize"
    using size' assms(1) by (simp add: getFileSize_def)
  have quiet: "firstPanic (runWorkers os filename b 0 segs) = None"
    unfolding all using np by (intro firstPanic_none) auto
  note run = run_returns [OF size rc sl t quiet]
  define v where "v = (\<lambda>j. sum_list (sent (events (?W j))))"
  define v' where "v' = (\<lambda>j. sum_list (sent (events (?W' j))))"
  have sum: "receiver (concat (map (sent \<circ> events) (map ?W [0..<?n]))) = (\<Sum>j<?n. v j)"
    by (simp add: receiver_concat comp_def v_def
        interv_sum_list_conv_sum_set_nat atLeast0LessThan)
  have sum': "receiver (concat (map (sent \<circ> events) (map ?W' [0..<?n]))) = (\<Sum>j<?n. v' j)"
    by (simp add: receiver_concat comp_def v'_def
        interv_sum_list_conv_sum_set_nat atLeast0LessThan)
  have "(\<Sum>j<?n. v j) = v k + (\<Sum>j\<in>{..<?n} - {k}. v j)"
    using k by (intro sum.remove) simp_all
  moreover have "(\<Sum>j<?n. v' j) = v' k + (\<Sum>j\<in>{..<?n} - {k}. v' j)"
    using k by (intro sum.remove) simp_all
  moreover have "(\<Sum>j\<in>{..<?n} - {k}. v j) = (\<Sum>j\<in>{..<?n} - {k}. v' j)"
    using same by (intro sum.cong) (simp_all add: v_def v'_def)
  moreover have "v k = 0"
    using failed by (simp add: v_def)
  ultimately have "(\<Sum>j<?n. v j) = (\<Sum>j<?n. v' j) - v' k"
    by simp
  then have "receiver (concat (map (sent \<circ> events) (runWorkers os filename b 0 segs))) =
      total' - sum_list (sent (events (workers (getNumOfLines os' filename s t b) ! k)))"
    using sum sum' k unfolding tot' ws' all all' by (simp add: v'_def)
  then show ?thesis
    using run failed k ws' all all' by simp
qed

theorem worker_failure_is_swallowed_witness:
  "outcome (getNumOfLines (holding ''f'' [10, 97, 10, 10]) ''f'' 2 2 2) = Returned 3 None \<and>
   sent (events (workers (getNumOfLines (holding ''f'' [10, 97, 10, 10]) ''f'' 2 2 2) ! 1)) = [2] \<and>
   sent (events (workers (getNumOfLines
     (openFailsAt 1 (Failure ''too many open files'') (holding ''f'' [10, 97, 10, 10]))
     ''f'' 2 2 2) ! 1)) = [0] \<and>
   outcome (getNumOfLines
     (openFailsAt 1 (Failure ''too many open files'') (holding ''f'' [10, 97, 10, 10]))
     ''f'' 2 2 2) = Returned 1 None \<and>
   outcome (getNumOfLines
     (seekFailsAt 1 (Failure ''illegal seek'') (holding ''f'' [10, 97, 10, 10]))
     ''f'' 2 2 2) = Returned 1 None"
proof -
  let ?os' = "holding ''f'' [10, 97, 10, 10]"
  let ?os = "openFailsAt 1 (Failure ''too many open files'') ?os'"
  let ?os2 = "seekFailsAt 1 (Failure ''illegal seek'') ?os'"
  have a: "\<forall>j. j \<noteq> Suc 1 \<longrightarrow> ?os j = ?os' j"
    by (simp add: openFailsAt_def)
  have b: "?os (Suc 1) ''f'' = Inl (Failure ''too many open files'') \<or>
      (\<exists>f. ?os (Suc 1) ''f'' = Inr f \<and> seekErr f = Some (Failure ''too many open files''))"
    by (simp add: openFailsAt_def)
  have a2: "\<forall>j. j \<noteq> Suc 1 \<longrightarrow> ?os2 j = ?os' j"
    by (simp add: seekFailsAt_def)
  have b2: "?os2 (Suc 1) ''f'' = Inl (Failure ''illegal seek'') \<or>
      (\<exists>f. ?os2 (Suc 1) ''f'' = Inr f \<and> seekErr f = Some (Failure ''illegal seek''))"
    by (simp add: seekFailsAt_def holding_def)
  have c: "outcome (getNumOfLines ?os' ''f'' 2 2 2) = Returned 3 None"
    by code_simp
  have d: "1 < length (workers (getNumOfLines ?os' ''f'' 2 2 2))"
    by code_simp
  have e: "sent (events (workers (getNumOfLines ?os' ''f'' 2 2 2) ! 1)) = [2]"
    by code_simp
  show ?thesis
    using worker_failure_is_swallowed [OF a b c d] worker_failure_is_swallowed [OF a2 b2 c d] c e
    by simp
qed

section \<open>Claims about the planner\<close>

text \<open>
  Claim C2, within the range where \<^verbatim>\<open>float64\<close> is exact. For
  \<open>totalReads + segmentCount \<le> 2 ^ 53\<close> segment \<open>i\<close> gets
  \<open>(totalReads + i) div segmentCount\<close> reads; the counts do not decrease with \<open>i\<close>,
  differ by at most one, and add up to \<open>totalReads\<close>.
\<close>

theorem segment_reads:
  assumes "0 \<le> T" "1 \<le> s" "T + s \<le> 2 ^ 53"
  shows "\<exists>segs. segmentLoop T s b 0 0 = Some segs \<and> length segs = nat s \<and>
           (\<forall>i<nat s. fst (segs ! i) = (T + int i) div s) \<and>
           (\<forall>i j. i \<le> j \<and> j < nat s \<longrightarrow>
              fst (segs ! i) \<le> fst (segs ! j) \<and> fst (segs ! j) \<le> fst (segs ! i) + 1) \<and>
           sum_list (map fst segs) = T"
proof -
  let ?segs = "plan (\<lambda>k. (T + k) div s) b 0 0 (nat s)"
  have reads: "fst (?segs ! i) = (T + int i) div s" if "i < nat s" for i
    using that by (simp add: fst_plan)
  have "sum_list (map fst ?segs) = (\<Sum>k<nat s. (T + int k) div s)"
    by (simp add: map_fst_plan interv_sum_list_conv_sum_set_nat atLeast0LessThan)
  then have total: "sum_list (map fst ?segs) = T"
    using assms by (simp add: reads_sum)
  have "fst (?segs ! i) \<le> fst (?segs ! j) \<and> fst (?segs ! j) \<le> fst (?segs ! i) + 1"
    if "i \<le> j" "j < nat s" for i j
    using that reads [of i] reads [of j] reads_step [OF assms(2) that, of T] by simp
  then show ?thesis
    using segmentLoop_exact [OF assms, of b 0] reads total by auto
qed

theorem segment_reads_witness:
  "(0 :: int) \<le> 7 \<and> (1 :: int) \<le> 3 \<and> (7 :: int) + 3 \<le> 2 ^ 53 \<and>
   segmentLoop 7 3 4 0 0 = Some [(2, 0), (2, 8), (3, 16)] \<and>
   sum_list (map fst (the (segmentLoop 7 3 4 0 0))) = 7"
proof -
  have e: "segmentLoop 7 3 4 0 0 = Some [(2, 0), (2, 8), (3, 16)]"
    by code_simp
  obtain segs where "segmentLoop 7 3 4 0 0 = Some segs" and "sum_list (map fst segs) = 7"
    using segment_reads [of 7 3 4] by auto
  then show ?thesis
    using e by simp
qed

text \<open>
  Claim C2 as stated, for every \<open>totalReads\<close>, fails: \<^verbatim>\<open>float64(2^53 + 1)\<close> is
  \<open>2 ^ 53\<close>, so with one segment the planner assigns \<open>2 ^ 53\<close> reads where the
  claim has \<open>2 ^ 53 + 1\<close>.
\<close>

theorem segment_reads_beyond_float64:
  "segmentLoop 9007199254740993 1 1 0 0 = Some [(9007199254740992, 0)] \<and>
   (9007199254740993 + 0) div 1 \<noteq> (9007199254740992 :: int)"
  by code_simp

text \<open>
  Claim C3, within the range where \<^verbatim>\<open>float64\<close> is exact. For
  \<open>fileSize + segmentCount \<le> 2 ^ 53\<close> the number of reads is \<open>fileSize div bufferSize\<close>,
  one more when \<open>bufferSize\<close> does not divide \<open>fileSize\<close>, which is the ceiling of
  the quotient; the first offset is 0, each next offset is the one before plus that
  segment's reads times \<open>bufferSize\<close>, the offsets do not decrease, and the last
  segment ends at \<open>totalReads * bufferSize\<close>.
\<close>

theorem segment_offsets:
  assumes "0 \<le> fsize" "0 < b" "1 \<le> s" "fsize + s \<le> 2 ^ 53"
  shows "\<exists>T segs. readCountTotal fsize b = Some T \<and>
           T = fsize div b + (if b dvd fsize then 0 else 1) \<and>
           T = \<lceil>real_of_int fsize / real_of_int b\<rceil> \<and>
           segmentLoop T s b 0 0 = Some segs \<and> length segs = nat s \<and>
           snd (segs ! 0) = 0 \<and>
           (\<forall>i. Suc i < nat s \<longrightarrow> snd (segs ! Suc i) = snd (segs ! i) + fst (segs ! i) * b) \<and>
           (\<forall>i j. i \<le> j \<and> j < nat s \<longrightarrow> snd (segs ! i) \<le> snd (segs ! j)) \<and>
           snd (last segs) + fst (last segs) * b = T * b"
proof -
  define T where "T = fsize div b + (if b dvd fsize then 0 else 1)"
  define f where "f = (\<lambda>k. (T + k) div s)"
  define segs where "segs = plan f b 0 0 (nat s)"
  have T: "0 \<le> T" "T \<le> fsize"
    unfolding T_def using reads_bounded [OF assms(1,2)] by simp_all
  have rc: "readCountTotal fsize b = Some T"
    unfolding T_def using assms by (intro readCountTotal_exact) simp_all
  have ceil: "T = \<lceil>real_of_int fsize / real_of_int b\<rceil>"
    using assms(2)
    by (simp add: T_def ceiling_divide_eq_div zdiv_zminus1_eq_if dvd_eq_mod_eq_0)
  have sl: "segmentLoop T s b 0 0 = Some segs"
    unfolding segs_def f_def using T assms by (intro segmentLoop_exact) simp_all
  have f0: "0 \<le> f k" if "0 \<le> k" for k
    using that T assms(3) by (simp add: f_def pos_imp_zdiv_nonneg_iff)
  have off: "snd (segs ! k) = (\<Sum>l<k. f (int l)) * b" if "k < nat s" for k
    using that by (simp add: segs_def snd_plan)
  have rd: "fst (segs ! k) = f (int k)" if "k < nat s" for k
    using that by (simp add: segs_def fst_plan)
  have first: "snd (segs ! 0) = 0"
    using assms(3) off [of 0] by simp
  have consecutive: "snd (segs ! Suc i) = snd (segs ! i) + fst (segs ! i) * b"
    if "Suc i < nat s" for i
    using that off [of "Suc i"] off [of i] rd [of i] by (simp add: algebra_simps)
  have mono: "snd (segs ! i) \<le> snd (segs ! j)" if "i \<le> j" "j < nat s" for i j
  proof -
    have "(\<Sum>l<i. f (int l)) \<le> (\<Sum>l<j. f (int l))"
      using that f0 by (intro sum_mono2) auto
    then have "(\<Sum>l<i. f (int l)) * b \<le> (\<Sum>l<j. f (int l)) * b"
      using assms(2) by (intro mult_right_mono) simp_all
    then show ?thesis
      using that off [of i] off [of j] by simp
  qed
  have "segs \<noteq> []"
    using assms(3) by (auto simp: segs_def dest: arg_cong [where f = length])
  then have "last segs = segs ! (nat s - 1)"
    by (simp add: last_conv_nth segs_def)
  then have "snd (last segs) + fst (last segs) * b =
      ((\<Sum>l<nat s - 1. f (int l)) + f (int (nat s - 1))) * b"
    using off [of "nat s - 1"] rd [of "nat s - 1"] assms(3) by (simp add: algebra_simps)
  also have "(\<Sum>l<nat s - 1. f (int l)) + f (int (nat s - 1)) = T"
    using reads_sum [of T s] T assms(3) sum.lessThan_Suc [of "\<lambda>l. f (int l)" "nat s - 1"]
    by (simp add: f_def del: sum.lessThan_Suc)
  finally have tile: "snd (last segs) + fst (last segs) * b = T * b" .
  have "length segs = nat s"
    by (simp add: segs_def)
  with rc ceil sl first consecutive mono tile show ?thesis
    unfolding T_def [symmetric] by blast
qed

theorem segment_offsets_witness:
  "(0 :: int) \<le> 10 \<and> (0 :: int) < 4 \<and> (1 :: int) \<le> 3 \<and> (10 :: int) + 3 \<le> 2 ^ 53 \<and>
   readCountTotal 10 4 = Some 3 \<and>
   segmentLoop 3 3 4 0 0 = Some [(1, 0), (1, 4), (1, 8)]"
proof -
  obtain T segs where "readCountTotal 10 4 = Some T"
    and "T = 10 div 4 + (if (4 :: int) dvd 10 then 0 else 1)"
    and "segmentLoop T 3 4 0 0 = Some segs"
    using segment_offsets [of 10 4 3] by auto
  moreover have "segmentLoop 3 3 4 0 0 = Some [(1, 0), (1, 4), (1, 8)]"
    by code_simp
  ultimately show ?thesis
    by simp
qed

text \<open>
  Claim C3 as stated, for every file size, fails. For a file of \<open>2 ^ 55 + 3\<close> bytes and
  a buffer of one byte the planner computes \<open>2 ^ 55 + 1\<close> reads, not \<open>2 ^ 55 + 3\<close>;
  for \<open>2 ^ 53 + 1\<close> bytes it computes \<open>2 ^ 53 + 1\<close> reads and one segment of
  \<open>2 ^ 53\<close> reads, which ends one buffer short of \<open>totalReads * bufferSize\<close>.
\<close>

theorem segment_offsets_beyond_float64:
  "readCountTotal 36028797018963971 1 = Some 36028797018963969 \<and>
   readCountTotal 9007199254740993 1 = Some 9007199254740993 \<and>
   segmentLoop 9007199254740993 1 1 0 0 = Some [(9007199254740992, 0)] \<and>
   (0 :: int) + 9007199254740992 * 1 \<noteq> 9007199254740993 * 1"
  by code_simp

section \<open>Claims about the whole count\<close>

text \<open>
  Claim C1, where \<^verbatim>\<open>float64\<close> is exact and one \<^verbatim>\<open>Read\<close> can fill a planned read.
  For a regular file that does not change, with \<open>fileSize + segmentCount \<le> 2 ^ 53\<close>
  and with \<open>bufferSize \<le> 2 ^ 30\<close> or \<open>fileSize \<le> 2 ^ 30\<close>, every
  \<open>segmentCount \<ge> 1\<close>, \<open>maxConcurrency \<ge> 1\<close> and \<open>bufferSize > 0\<close>, the count
  returns the number of delimiter bytes that one pass over the file finds, and no error;
  so two choices of the parameters give the same result.
\<close>

theorem count_equals_sequential_scan:
  fixes path :: string and cs :: "byte list"
  assumes "1 \<le> s1" "1 \<le> t1" "1 \<le> s2" "1 \<le> t2" "0 < b"
    and "int (length cs) + s1 \<le> 2 ^ 53" "int (length cs) + s2 \<le> 2 ^ 53"
    and "b \<le> 2 ^ 30 \<or> int (length cs) \<le> 2 ^ 30"
  shows "outcome (getNumOfLines (holding path cs) path s1 t1 b) =
           Returned (sequentialScan cs) None \<and>
         outcome (getNumOfLines (holding path cs) path s2 t2 b) =
           outcome (getNumOfLines (holding path cs) path s1 t1 b)"
  using run_regular(1) [OF assms(1,2,5,6,8)] run_regular(1) [OF assms(3,4,5,7,8)] by simp

theorem count_equals_sequential_scan_witness:
  "(1 :: int) \<le> 1 \<and> (1 :: int) \<le> 4 \<and> (1 :: int) \<le> 2 \<and> (0 :: int) < 1024 \<and>
   int (length [97, 10, 98, 10, 99, 10 :: byte]) + 4 \<le> 2 ^ 53 \<and>
   outcome (getNumOfLines (holding ''f'' [97, 10, 98, 10, 99, 10]) ''f'' 1 1 1024) =
     Returned 3 None \<and>
   outcome (getNumOfLines (holding ''f'' [97, 10, 98, 10, 99, 10]) ''f'' 4 2 1024) =
     Returned 3 None"
  using count_equals_sequential_scan [of 1 1 4 2 1024 "[97, 10, 98, 10, 99, 10]" "''f''"]
  by (simp add: delimiter_def)

text \<open>
  Claim C1 as stated, for every file content and every buffer size, fails in two ways.
  A file of \<open>2 ^ 30 + 1\<close> bytes that ends in its only delimiter, read with one segment
  and a buffer of \<open>2 ^ 30 + 1\<close> bytes, is planned as one read; the read delivers
  \<open>2 ^ 30\<close> bytes and the loop does not read again, so the count is 0, not 1. And a
  file of \<open>2 ^ 53 + 1\<close> bytes that ends in its only delimiter, read with one segment
  and a buffer of one byte, is planned as \<open>2 ^ 53\<close> reads: the last byte is never
  read.
\<close>

theorem count_misses_last_byte:
  "outcome (getNumOfLines (holding ''f'' (replicate 1073741824 97 @ [10])) ''f'' 1 1 1073741825) =
     Returned 0 None \<and>
   sequentialScan (replicate 1073741824 97 @ [10]) = 1 \<and>
   outcome (getNumOfLines (holding ''f'' (replicate 9007199254740992 97 @ [10])) ''f'' 1 1 1) =
     Returned 0 None \<and>
   sequentialScan (replicate 9007199254740992 97 @ [10]) = 1"
proof -
  have none: "count_list (replicate n (97 :: byte)) delimiter = 0" for n
    by (induction n) (simp_all add: delimiter_def)
  let ?cs = "replicate 1073741824 97 @ [10 :: byte]"
  let ?ds = "replicate 9007199254740992 97 @ [10 :: byte]"
  have "length ?cs = 1073741825"
    by simp
  then have "outcome (getNumOfLines (holding ''f'' ?cs) ''f'' 1 1 1073741825) =
      Returned (int (count_list (take 1073741824 ?cs) delimiter)) None"
    by (rule run_one_segment_short_read)
  moreover have "length ?ds = 9007199254740993"
    by simp
  then have "outcome (getNumOfLines (holding ''f'' ?ds) ''f'' 1 1 1) =
      Returned (int (count_list (take 9007199254740992 ?ds) delimiter)) None"
    by (rule run_one_segment_beyond_float64)
  ultimately show ?thesis
    using none by (simp add: sequentialScan_count delimiter_def)
qed

text \<open>
  Claim C10, within the range where \<^verbatim>\<open>float64\<close> is exact. For an empty file,
  \<open>1 \<le> segmentCount \<le> 2 ^ 53\<close>, \<open>maxConcurrency \<ge> 1\<close> and \<open>bufferSize > 0\<close>:
  the number of reads is 0, every segment is given 0 reads and its handle serves no
  read, and the count returns 0 with no error.
\<close>

theorem empty_file:
  fixes path :: string
  assumes "1 \<le> s" "s \<le> 2 ^ 53" "1 \<le> t" "0 < b"
  shows "readCountTotal 0 b = Some 0 \<and>
         outcome (getNumOfLines (holding path []) path s t b) = Returned 0 None \<and>
         length (workers (getNumOfLines (holding path []) path s t b)) = nat s \<and>
         (\<forall>w \<in> set (workers (getNumOfLines (holding path []) path s t b)).
            readCount w = 0 \<and> map_option calls (handle w) = Some 0)"
proof -
  let ?r = "getNumOfLines (holding path []) path s t b"
  have range: "int (length ([] :: byte list)) + s \<le> 2 ^ 53"
    using assms(2) by simp
  have cap: "b \<le> 2 ^ 30 \<or> int (length ([] :: byte list)) \<le> 2 ^ 30"
    by simp
  note run = run_regular [OF assms(1,3,4) range cap, of path]
  have zero: "(0 + int j) div s = 0" if "j < nat s" for j
    using that by simp
  have each: "readCount (workers ?r ! j) = 0 \<and>
      map_option calls (handle (workers ?r ! j)) = Some 0" if "j < nat s" for j
    using run(3) that zero [OF that] by simp
  have "readCount w = 0 \<and> map_option calls (handle w) = Some 0"
    if w: "w \<in> set (workers ?r)" for w
  proof -
    obtain j where "j < length (workers ?r)" "w = workers ?r ! j"
      using w unfolding in_set_conv_nth by blast
    then show ?thesis
      using each [of j] run(2) by simp
  qed
  moreover have "readCountTotal 0 b = Some 0"
    using readCountTotal_exact [of 0 b] assms(4) by simp
  ultimately show ?thesis
    using run(1,2) by simp
qed

theorem empty_file_witness:
  "(1 :: int) \<le> 3 \<and> (3 :: int) \<le> 2 ^ 53 \<and> (1 :: int) \<le> 2 \<and> (0 :: int) < 2 \<and>
   readCountTotal 0 2 = Some 0 \<and>
   outcome (getNumOfLines (holding ''f'' []) ''f'' 3 2 2) = Returned 0 None \<and>
   length (workers (getNumOfLines (holding ''f'' []) ''f'' 3 2 2)) = 3"
  using empty_file [of 3 2 2 "''f''"] by simp

text \<open>
  Claim C10 as stated, for any \<open>segmentCount\<close>, fails. With \<open>2 ^ 53 + 1\<close> segments
  the last one is given \<^verbatim>\<open>float64(2^53) / float64(2^53 + 1)\<close>, which is 1, reads: it
  reads at the end of the empty file and panics with \<^verbatim>\<open>io.EOF\<close>.
\<close>

theorem empty_file_beyond_float64:
  "segmentLoop 0 9007199254740993 1 0 0 \<noteq> None \<and>
   the (segmentLoop 0 9007199254740993 1 0 0) ! 9007199254740992 = (1, 0) \<and>
   outcome (getNumOfLines (holding ''f'' []) ''f'' 9007199254740993 1 1) =
     Crashed (ErrorPanic EOF)"
  using run_empty_beyond_float64 [of "''f''"] by auto

end
